theory Spec2Isabelle
  imports Main
begin

section \<open>Data model\<close>

text \<open>
  An alarm object as \<^verbatim>\<open>app.js\<close> builds it in the save handler. A field that may be
  \<^verbatim>\<open>null\<close>, \<^verbatim>\<open>undefined\<close> or missing is an option; \<open>days\<close> is \<open>None\<close> when the
  property is not an array. The source's field \<^verbatim>\<open>id\<close> is \<open>alarm_id\<close> here.
\<close>

record alarm =
  alarm_id :: string
  name :: string
  time :: string
  days :: "nat list option"
  category :: "string option"
  repeat :: bool
  enabled :: bool
  audioKey :: "string option"
  audioDataUrl :: "string option"
  audioName :: "string option"

text \<open>What the getters of a \<^verbatim>\<open>Date\<close> return: hours, minutes, seconds and the weekday.\<close>

record clock =
  hours :: nat
  minutes :: nat
  seconds :: nat
  day :: nat

datatype message =
    SYNC_ALARMS "alarm list"
  | ALARM_FIRED alarm
  | ALARM_ACTION string
  | OTHER_MESSAGE

datatype effect =
    FireAlarm alarm
  | PostMessage message
  | RenderAlarms
  | ShowToast
  | ShowAlarmNotification alarm

datatype audio_src = DataUrl string | ObjectUrl string

text \<open>
  What \<^verbatim>\<open>play()\<close> gives back: a promise that is fulfilled, a promise that is rejected,
  or (in a browser that predates the promise) \<^verbatim>\<open>undefined\<close>, with the sound started
  or not.
\<close>

datatype play_result = PlayUndefined bool | PlayFulfilled | PlayRejected

datatype db_result = DbError | DbResult "string option"

datatype ctx_result = CtxMissing | CtxThrows | CtxOk

text \<open>
  The browser around the page: whether a service worker controls it, which payloads
  \<^verbatim>\<open>localStorage.setItem\<close> accepts, the notification permission, what \<^verbatim>\<open>play()\<close>
  returns for a source, what the blob store answers for a key, and what
  \<^verbatim>\<open>new AudioContext()\<close> does.
\<close>

record env =
  swController :: bool
  setItemOk :: "alarm list \<Rightarrow> bool"
  notificationGranted :: bool
  play :: "audio_src \<Rightarrow> play_result"
  getAudioFromDB :: "string \<Rightarrow> db_result"
  audioContext :: ctx_result

record audio_el =
  src :: audio_src
  playing :: bool

text \<open>The module-level variables of \<^verbatim>\<open>app.js\<close>, the ringing overlay and the stored list.\<close>

record fg_state =
  alarms :: "alarm list"
  firedKeys :: "string list"
  lastCheckedMinute :: "string option"
  currentRinging :: "alarm option"
  overlayHidden :: bool
  pageNotifications :: "alarm list"
  activeAudioEl :: "audio_el option"
  activeObjectUrl :: "string option"
  beepCtx :: bool
  beepInterval :: bool
  storage :: "alarm list option"

text \<open>The module-level variables of the service worker.\<close>

record sw_state =
  swAlarms :: "alarm list"
  swFiredKeys :: "string list"
  swLastMinute :: "string option"

section \<open>Helpers\<close>

definition digit :: "nat \<Rightarrow> char" where
  "digit d = ''0123456789'' ! d"

fun String_nat :: "nat \<Rightarrow> string" where
  "String_nat n = (if n < 10 then [digit n] else String_nat (n div 10) @ [digit (n mod 10)])"

declare String_nat.simps [simp del]

definition padStart :: "nat \<Rightarrow> char \<Rightarrow> string \<Rightarrow> string" where
  "padStart n c s = replicate (n - length s) c @ s"

definition pad :: "nat \<Rightarrow> string" where
  "pad n = padStart 2 (CHR ''0'') (String_nat n)"

definition endsWith :: "string \<Rightarrow> string \<Rightarrow> bool" where
  "endsWith k s = (length s \<le> length k \<and> drop (length k - length s) k = s)"

text \<open>JavaScript truthiness of a string-valued property: absent, null and \<open>''''\<close> are falsy.\<close>

fun truthy :: "string option \<Rightarrow> bool" where
  "truthy None = False"
| "truthy (Some s) = (s \<noteq> [])"

definition hasDays :: "alarm \<Rightarrow> bool" where
  "hasDays a = (case days a of None \<Rightarrow> False | Some ds \<Rightarrow> length ds > 0)"

definition array_includes :: "nat list option \<Rightarrow> nat \<Rightarrow> bool" where
  "array_includes ds d = (case ds of None \<Rightarrow> False | Some xs \<Rightarrow> d \<in> set xs)"

definition firedKey :: "alarm \<Rightarrow> string \<Rightarrow> string" where
  "firedKey a currentMinute = alarm_id a @ ''|'' @ currentMinute"

text \<open>
  The rollover loop \<^verbatim>\<open>for (const k in firedKeys) if (!k.endsWith('|' + m)) delete firedKeys[k]\<close>.
  The object \<^verbatim>\<open>firedKeys\<close> is the list of its own keys in insertion order; every value
  is \<^verbatim>\<open>true\<close>.
\<close>

definition purge :: "string \<Rightarrow> string list \<Rightarrow> string list" where
  "purge currentMinute keys = filter (\<lambda>k. endsWith k (''|'' @ currentMinute)) keys"

section \<open>Sync channel and persistence\<close>

definition slim :: "alarm \<Rightarrow> alarm" where
  "slim a = a\<lparr>audioDataUrl := None\<rparr>"

definition syncAlarmsToSW :: "env \<Rightarrow> fg_state \<Rightarrow> effect list" where
  "syncAlarmsToSW e s =
     (if \<not> swController e then []
      else [PostMessage (SYNC_ALARMS (map slim (alarms s)))])"

text \<open>
  \<^verbatim>\<open>saveAlarms\<close>: write the list and sync it to the worker; when the write throws,
  write the list without inline audio and audio names and tell the user; when that
  throws too, log and go on.
\<close>

definition stripAudio :: "alarm \<Rightarrow> alarm" where
  "stripAudio a = a\<lparr>audioDataUrl := None, audioName := None\<rparr>"

definition saveAlarms :: "env \<Rightarrow> fg_state \<Rightarrow> fg_state \<times> effect list" where
  "saveAlarms e s =
     (if setItemOk e (alarms s) then (s\<lparr>storage := Some (alarms s)\<rparr>, syncAlarmsToSW e s)
      else
        let stripped = map stripAudio (alarms s)
        in if setItemOk e stripped then (s\<lparr>storage := Some stripped\<rparr>, [ShowToast])
           else (s, []))"

section \<open>Fire and dismiss\<close>

definition stopBeep :: "fg_state \<Rightarrow> fg_state" where
  "stopBeep s = s\<lparr>beepInterval := False, beepCtx := False\<rparr>"

definition stopCurrentAudio :: "fg_state \<Rightarrow> fg_state" where
  "stopCurrentAudio s = stopBeep (s\<lparr>activeAudioEl := None, activeObjectUrl := None\<rparr>)"

definition playBeepFallback :: "env \<Rightarrow> fg_state \<Rightarrow> fg_state" where
  "playBeepFallback e s =
     (case audioContext e of
        CtxMissing \<Rightarrow> s
      | CtxThrows \<Rightarrow> s
      | CtxOk \<Rightarrow> s\<lparr>beepCtx := True, beepInterval := True\<rparr>)"

definition showWebNotification :: "env \<Rightarrow> alarm \<Rightarrow> fg_state \<Rightarrow> fg_state" where
  "showWebNotification e a s =
     (if \<not> notificationGranted e then s
      else s\<lparr>pageNotifications := pageNotifications s @ [a]\<rparr>)"

text \<open>
  \<^verbatim>\<open>new Audio(url)\<close> followed by \<^verbatim>\<open>play()\<close>: the element is kept in
  \<^verbatim>\<open>activeAudioEl\<close>; a rejected promise runs the handler that starts the beep, and a
  \<^verbatim>\<open>play()\<close> that returns no promise gets no handler.
\<close>

definition startAudio :: "env \<Rightarrow> audio_src \<Rightarrow> fg_state \<Rightarrow> fg_state" where
  "startAudio e u s =
     (case play e u of
        PlayFulfilled \<Rightarrow> s\<lparr>activeAudioEl := Some \<lparr>src = u, playing = True\<rparr>\<rparr>
      | PlayUndefined started \<Rightarrow> s\<lparr>activeAudioEl := Some \<lparr>src = u, playing = started\<rparr>\<rparr>
      | PlayRejected \<Rightarrow>
          playBeepFallback e (s\<lparr>activeAudioEl := Some \<lparr>src = u, playing = False\<rparr>\<rparr>))"

text \<open>\<^verbatim>\<open>alarms.find(a => a.id === alarm.id) || alarm\<close>\<close>

definition fullAlarm :: "alarm \<Rightarrow> fg_state \<Rightarrow> alarm" where
  "fullAlarm a s =
     (case find (\<lambda>b. alarm_id b = alarm_id a) (alarms s) of Some b \<Rightarrow> b | None \<Rightarrow> a)"

text \<open>
  \<^verbatim>\<open>fireAlarm\<close>, with the promises it awaits settled by the environment before it
  returns.
\<close>

definition fireAlarm :: "env \<Rightarrow> alarm \<Rightarrow> fg_state \<Rightarrow> fg_state" where
  "fireAlarm e a s =
     (let s1 = s\<lparr>currentRinging := Some a, overlayHidden := False\<rparr>;
          s2 = showWebNotification e a s1;
          s3 = stopCurrentAudio s2;
          full = fullAlarm a s3
      in if truthy (audioDataUrl full) then
           startAudio e (DataUrl (the (audioDataUrl full))) s3
         else if truthy (audioKey full) then
           (case getAudioFromDB e (the (audioKey full)) of
              DbError \<Rightarrow> playBeepFallback e s3
            | DbResult None \<Rightarrow> playBeepFallback e s3
            | DbResult (Some blob) \<Rightarrow>
                startAudio e (ObjectUrl blob) (s3\<lparr>activeObjectUrl := Some blob\<rparr>))
         else playBeepFallback e s3)"

definition dismissAlarm :: "fg_state \<Rightarrow> fg_state" where
  "dismissAlarm s = (stopCurrentAudio (s\<lparr>overlayHidden := True\<rparr>))\<lparr>currentRinging := None\<rparr>"

section \<open>Loading the persisted list\<close>

datatype json =
    JNull
  | JBool bool
  | JNumber int
  | JString string
  | JArray "json list"
  | JObject "(string \<times> json) list"

datatype js_error = SyntaxError | SecurityError

text \<open>
  The body of the \<^verbatim>\<open>try\<close> block of \<^verbatim>\<open>loadAlarms\<close>. Its two calls into the
  platform are parameters: \<open>getItem\<close> is what \<^verbatim>\<open>localStorage.getItem(STORAGE_KEY)\<close>
  does (it throws, or returns \<^verbatim>\<open>null\<close> or a string) and \<open>JSON_parse\<close> is
  \<^verbatim>\<open>JSON.parse\<close> (it throws or returns a value).
\<close>

definition loadAlarms_try ::
  "js_error + string option \<Rightarrow> (string \<Rightarrow> js_error + json) \<Rightarrow> js_error + json list" where
  "loadAlarms_try getItem JSON_parse =
     (case getItem of
        Inl err \<Rightarrow> Inl err
      | Inr raw \<Rightarrow>
          if \<not> truthy raw then Inr []
          else (case JSON_parse (the raw) of
                  Inl err \<Rightarrow> Inl err
                | Inr parsed \<Rightarrow>
                    (case parsed of JArray xs \<Rightarrow> Inr xs | _ \<Rightarrow> Inr [])))"

text \<open>\<^verbatim>\<open>loadAlarms\<close>: the \<^verbatim>\<open>catch\<close> clause logs and returns the empty array.\<close>

definition loadAlarms ::
  "js_error + string option \<Rightarrow> (string \<Rightarrow> js_error + json) \<Rightarrow> js_error + json list" where
  "loadAlarms getItem JSON_parse =
     (case loadAlarms_try getItem JSON_parse of
        Inl err \<Rightarrow> Inr []
      | Inr xs \<Rightarrow> Inr xs)"

section \<open>Foreground scheduler\<close>

text \<open>
  The end of the loop body of \<^verbatim>\<open>tickAlarms\<close>, reached by the first alarm that passes
  every check: record the key, fire, and disable a one-shot alarm (the alarm at index
  \<open>i\<close> of the list), save and render.
\<close>

definition fireDue :: "env \<Rightarrow> string \<Rightarrow> nat \<Rightarrow> alarm \<Rightarrow> fg_state \<Rightarrow> fg_state \<times> effect list" where
  "fireDue e currentMinute i a s =
     (let s1 = s\<lparr>firedKeys := firedKeys s @ [firedKey a currentMinute]\<rparr>;
          s2 = fireAlarm e a s1
      in if \<not> hasDays a then
           let s3 = s2\<lparr>alarms := (alarms s2)[i := a\<lparr>enabled := False\<rparr>]\<rparr>;
               r = saveAlarms e s3
           in (fst r, FireAlarm a # snd r @ [RenderAlarms])
         else (s2, [FireAlarm a]))"

text \<open>
  The \<^verbatim>\<open>for (const alarm of alarms)\<close> loop of \<^verbatim>\<open>tickAlarms\<close>; \<open>i\<close> is the index of
  the alarm under inspection, each \<^verbatim>\<open>continue\<close> is the recursive call and the
  \<^verbatim>\<open>break\<close> ends the recursion.
\<close>

fun tickLoop :: "env \<Rightarrow> string \<Rightarrow> nat \<Rightarrow> nat \<Rightarrow> alarm list \<Rightarrow> fg_state \<Rightarrow> fg_state \<times> effect list" where
  "tickLoop e currentMinute currentDay i [] s = (s, [])"
| "tickLoop e currentMinute currentDay i (a # rest) s =
     (if \<not> enabled a then tickLoop e currentMinute currentDay (Suc i) rest s
      else if time a \<noteq> currentMinute then tickLoop e currentMinute currentDay (Suc i) rest s
      else if hasDays a \<and> \<not> array_includes (days a) currentDay
        then tickLoop e currentMinute currentDay (Suc i) rest s
      else if firedKey a currentMinute \<in> set (firedKeys s)
        then tickLoop e currentMinute currentDay (Suc i) rest s
      else fireDue e currentMinute i a s)"

definition rollover :: "string \<Rightarrow> fg_state \<Rightarrow> fg_state" where
  "rollover currentMinute s =
     (if Some currentMinute \<noteq> lastCheckedMinute s
      then s\<lparr>lastCheckedMinute := Some currentMinute,
             firedKeys := purge currentMinute (firedKeys s)\<rparr>
      else s)"

definition tickAlarms :: "env \<Rightarrow> clock \<Rightarrow> string \<Rightarrow> string \<Rightarrow> fg_state \<Rightarrow> fg_state \<times> effect list" where
  "tickAlarms e now hh mm s =
     (let currentMinute = hh @ '':'' @ mm;
          currentDay = day now;
          ss = seconds now;
          s1 = rollover currentMinute s
      in if ss > 4 then (s1, [])
         else if currentRinging s1 \<noteq> None then (s1, [])
         else tickLoop e currentMinute currentDay 0 (alarms s1) s1)"

definition updateClock :: "env \<Rightarrow> clock \<Rightarrow> fg_state \<Rightarrow> fg_state \<times> effect list" where
  "updateClock e now s = tickAlarms e now (pad (hours now)) (pad (minutes now)) s"

definition onSwMessage :: "env \<Rightarrow> message \<Rightarrow> fg_state \<Rightarrow> fg_state \<times> effect list" where
  "onSwMessage e m s =
     (case m of
        ALARM_FIRED a \<Rightarrow>
          (if currentRinging s = None then (fireAlarm e a s, [FireAlarm a]) else (s, []))
      | ALARM_ACTION action \<Rightarrow>
          (let s1 = (if action = ''dismiss'' then dismissAlarm s else s);
               s2 = (if action = ''snooze'' then dismissAlarm s1 else s1)
           in (s2, []))
      | _ \<Rightarrow> (s, []))"

text \<open>
  The handlers of the alarm cards and of the modal's save button. The save handler
  builds the record from the form (here \<open>d\<close>, whose id stands for the fresh
  \<^verbatim>\<open>uid()\<close>), under the id being edited if there is one, always enabled and without
  inline audio.
\<close>

definition toggleAlarm :: "env \<Rightarrow> nat \<Rightarrow> bool \<Rightarrow> fg_state \<Rightarrow> fg_state \<times> effect list" where
  "toggleAlarm e i checked s =
     saveAlarms e (s\<lparr>alarms := (alarms s)[i := (alarms s ! i)\<lparr>enabled := checked\<rparr>]\<rparr>)"

definition deleteAlarm :: "env \<Rightarrow> string \<Rightarrow> fg_state \<Rightarrow> fg_state \<times> effect list" where
  "deleteAlarm e i s =
     (let r = saveAlarms e (s\<lparr>alarms := filter (\<lambda>a. alarm_id a \<noteq> i) (alarms s)\<rparr>)
      in (fst r, snd r @ [RenderAlarms, ShowToast]))"

definition savedId :: "string option \<Rightarrow> alarm \<Rightarrow> string" where
  "savedId editingId d = (if truthy editingId then the editingId else alarm_id d)"

definition saveAlarm :: "env \<Rightarrow> string option \<Rightarrow> alarm \<Rightarrow> fg_state \<Rightarrow> fg_state \<times> effect list" where
  "saveAlarm e editingId d s =
     (let newId = savedId editingId d;
          data = d\<lparr>alarm_id := newId, enabled := True, audioDataUrl := None\<rparr>;
          as = (if truthy editingId then
                  (case find (\<lambda>k. alarm_id (alarms s ! k) = the editingId)
                          [0 ..< length (alarms s)] of
                     Some idx \<Rightarrow> (alarms s)[idx := data]
                   | None \<Rightarrow> alarms s @ [data])
                else alarms s @ [data]);
          r = saveAlarms e (s\<lparr>alarms := as\<rparr>)
      in (fst r, ShowToast # snd r @ [RenderAlarms]))"

section \<open>Background scheduler\<close>

fun swLoop :: "string \<Rightarrow> nat \<Rightarrow> alarm list \<Rightarrow> sw_state \<Rightarrow> sw_state \<times> effect list" where
  "swLoop currentMinute currentDay [] s = (s, [])"
| "swLoop currentMinute currentDay (a # rest) s =
     (if \<not> enabled a then swLoop currentMinute currentDay rest s
      else if time a \<noteq> currentMinute then swLoop currentMinute currentDay rest s
      else if hasDays a \<and> \<not> array_includes (days a) currentDay
        then swLoop currentMinute currentDay rest s
      else if firedKey a currentMinute \<in> set (swFiredKeys s)
        then swLoop currentMinute currentDay rest s
      else (s\<lparr>swFiredKeys := swFiredKeys s @ [firedKey a currentMinute]\<rparr>,
            [ShowAlarmNotification a]))"

definition swRollover :: "string \<Rightarrow> sw_state \<Rightarrow> sw_state" where
  "swRollover currentMinute s =
     (if Some currentMinute \<noteq> swLastMinute s
      then s\<lparr>swLastMinute := Some currentMinute,
             swFiredKeys := purge currentMinute (swFiredKeys s)\<rparr>
      else s)"

definition checkSwAlarms :: "clock \<Rightarrow> sw_state \<Rightarrow> sw_state \<times> effect list" where
  "checkSwAlarms now s =
     (let hh = pad (hours now);
          mm = pad (minutes now);
          ss = seconds now;
          currentMinute = hh @ '':'' @ mm;
          currentDay = day now;
          s1 = swRollover currentMinute s
      in if ss > 30 then (s1, [])
         else swLoop currentMinute currentDay (swAlarms s1) s1)"

section \<open>Events and traces\<close>

text \<open>
  What can happen in the page: the one-second timer runs \<^verbatim>\<open>updateClock\<close>, the worker
  posts a message, the user dismisses (button or Escape), the playing audio ends, or the
  user toggles, deletes or saves an alarm.
\<close>

datatype fg_event =
    Tick clock
  | SwMessage message
  | Dismiss
  | AudioEnded
  | ToggleAlarm nat bool
  | DeleteAlarm string
  | SaveAlarm "string option" alarm

fun fg_step :: "env \<Rightarrow> fg_event \<Rightarrow> fg_state \<Rightarrow> fg_state \<times> effect list" where
  "fg_step e (Tick now) s = updateClock e now s"
| "fg_step e (SwMessage m) s = onSwMessage e m s"
| "fg_step e Dismiss s = (dismissAlarm s, [])"
| "fg_step e AudioEnded s = (if currentRinging s \<noteq> None then dismissAlarm s else s, [])"
| "fg_step e (ToggleAlarm i checked) s = toggleAlarm e i checked s"
| "fg_step e (DeleteAlarm i) s = deleteAlarm e i s"
| "fg_step e (SaveAlarm editingId d) s = saveAlarm e editingId d s"

fun fg_exec :: "env \<Rightarrow> fg_event list \<Rightarrow> fg_state \<Rightarrow> fg_state" where
  "fg_exec e [] s = s"
| "fg_exec e (ev # evs) s = fg_exec e evs (fst (fg_step e ev s))"

fun fg_trace :: "env \<Rightarrow> fg_event list \<Rightarrow> fg_state \<Rightarrow> (fg_event \<times> effect list) list" where
  "fg_trace e [] s = []"
| "fg_trace e (ev # evs) s = (ev, snd (fg_step e ev s)) # fg_trace e evs (fst (fg_step e ev s))"

text \<open>
  What can happen in the worker: its 30-second interval runs \<^verbatim>\<open>checkSwAlarms\<close>, or a
  message arrives; \<^verbatim>\<open>SYNC_ALARMS\<close> replaces the list and checks at once.
\<close>

datatype sw_event = SwInterval clock | SwOnMessage message clock

fun sw_step :: "sw_event \<Rightarrow> sw_state \<Rightarrow> sw_state \<times> effect list" where
  "sw_step (SwInterval now) s = checkSwAlarms now s"
| "sw_step (SwOnMessage (SYNC_ALARMS as) now) s = checkSwAlarms now (s\<lparr>swAlarms := as\<rparr>)"
| "sw_step (SwOnMessage m now) s = (s, [])"

fun sw_exec :: "sw_event list \<Rightarrow> sw_state \<Rightarrow> sw_state" where
  "sw_exec [] s = s"
| "sw_exec (ev # evs) s = sw_exec evs (fst (sw_step ev s))"

fun sw_trace :: "sw_event list \<Rightarrow> sw_state \<Rightarrow> effect list" where
  "sw_trace [] s = []"
| "sw_trace (ev # evs) s = snd (sw_step ev s) @ sw_trace evs (fst (sw_step ev s))"

text \<open>The alarms handed to \<^verbatim>\<open>fireAlarm\<close>, and to \<^verbatim>\<open>showAlarmNotification\<close>.\<close>

fun fired :: "effect list \<Rightarrow> alarm list" where
  "fired [] = []"
| "fired (FireAlarm a # fx) = a # fired fx"
| "fired (x # fx) = fired fx"

fun notified :: "effect list \<Rightarrow> alarm list" where
  "notified [] = []"
| "notified (ShowAlarmNotification a # fx) = a # notified fx"
| "notified (x # fx) = notified fx"

text \<open>The alarms the scheduler itself fired along a trace of the page.\<close>

fun tickFired :: "(fg_event \<times> effect list) list \<Rightarrow> alarm list" where
  "tickFired [] = []"
| "tickFired ((Tick now, fx) # tr) = fired fx @ tickFired tr"
| "tickFired (x # tr) = tickFired tr"

text \<open>The clocks that the ticks of an event sequence observe, in order.\<close>

fun tickClocks :: "fg_event list \<Rightarrow> clock list" where
  "tickClocks [] = []"
| "tickClocks (Tick now # evs) = now # tickClocks evs"
| "tickClocks (ev # evs) = tickClocks evs"

definition minuteOf :: "clock \<Rightarrow> string" where
  "minuteOf now = pad (hours now) @ '':'' @ pad (minutes now)"

definition fg_init :: "alarm list \<Rightarrow> fg_state" where
  "fg_init as = \<lparr>alarms = as, firedKeys = [], lastCheckedMinute = None,
     currentRinging = None, overlayHidden = True, pageNotifications = [],
     activeAudioEl = None, activeObjectUrl = None, beepCtx = False, beepInterval = False,
     storage = None\<rparr>"

definition sw_init :: sw_state where
  "sw_init = \<lparr>swAlarms = [], swFiredKeys = [], swLastMinute = None\<rparr>"

definition sw_clock :: "sw_event \<Rightarrow> clock" where
  "sw_clock ev = (case ev of SwInterval now \<Rightarrow> now | SwOnMessage m now \<Rightarrow> now)"

text \<open>
  The events that, in state \<open>s\<close>, set the \<^verbatim>\<open>enabled\<close> flag of an alarm with id \<open>x\<close>
  to \<^verbatim>\<open>true\<close>: the toggle of the card of such an alarm switched on, and a save under
  that id.
\<close>

definition enables :: "string \<Rightarrow> fg_state \<Rightarrow> fg_event \<Rightarrow> bool" where
  "enables x s ev =
     (case ev of
        ToggleAlarm i checked \<Rightarrow> checked \<and> i < length (alarms s) \<and> alarm_id (alarms s ! i) = x
      | SaveAlarm editingId d \<Rightarrow> savedId editingId d = x
      | _ \<Rightarrow> False)"

text \<open>No event of the sequence, run from state \<open>s\<close>, re-enables an alarm with id \<open>x\<close>.\<close>

fun never_enables :: "string \<Rightarrow> env \<Rightarrow> fg_event list \<Rightarrow> fg_state \<Rightarrow> bool" where
  "never_enables x e [] s = True"
| "never_enables x e (ev # evs) s =
     (\<not> enables x s ev \<and> never_enables x e evs (fst (fg_step e ev s)))"

text \<open>The events that run \<^verbatim>\<open>dismissAlarm\<close> while an alarm rings.\<close>

definition dismisses :: "fg_event \<Rightarrow> bool" where
  "dismisses ev =
     (ev = Dismiss \<or> ev = AudioEnded \<or> ev = SwMessage (ALARM_ACTION ''dismiss'')
      \<or> ev = SwMessage (ALARM_ACTION ''snooze''))"

section \<open>What the user hears\<close>

datatype sound = Silence | InlineAudio string | BlobAudio string | Beep

definition sounding :: "fg_state \<Rightarrow> sound" where
  "sounding s =
     (case activeAudioEl s of
        Some el \<Rightarrow>
          if playing el then (case src el of DataUrl u \<Rightarrow> InlineAudio u | ObjectUrl b \<Rightarrow> BlobAudio b)
          else if beepCtx s \<and> beepInterval s then Beep else Silence
      | None \<Rightarrow> if beepCtx s \<and> beepInterval s then Beep else Silence)"

definition starts :: "env \<Rightarrow> audio_src \<Rightarrow> bool" where
  "starts e u =
     (case play e u of PlayFulfilled \<Rightarrow> True | PlayUndefined started \<Rightarrow> started
      | PlayRejected \<Rightarrow> False)"

text \<open>
  A supported environment: \<^verbatim>\<open>AudioContext\<close> exists and can be constructed, and
  \<^verbatim>\<open>play()\<close> reports a failure through its promise.
\<close>

definition supported :: "env \<Rightarrow> bool" where
  "supported e = (audioContext e = CtxOk \<and> (\<forall>u. play e u \<noteq> PlayUndefined False))"

text \<open>The data model's "at most one audio source is active".\<close>

definition oneSource :: "alarm \<Rightarrow> bool" where
  "oneSource a = (if truthy (audioDataUrl a) then \<not> truthy (audioKey a) else True)"

text \<open>
  The ringing sequence in the words of the specification: the inline payload if present,
  else the blob fetched by \<open>audioKey\<close>, else the beep; a failure at one stage goes on
  to the next stage.
\<close>

definition spec_blob_stage :: "env \<Rightarrow> alarm \<Rightarrow> sound" where
  "spec_blob_stage e a =
     (if truthy (audioKey a) then
        (case getAudioFromDB e (the (audioKey a)) of
           DbResult (Some blob) \<Rightarrow> if starts e (ObjectUrl blob) then BlobAudio blob else Beep
         | _ \<Rightarrow> Beep)
      else Beep)"

definition spec_resolve :: "env \<Rightarrow> alarm \<Rightarrow> sound" where
  "spec_resolve e a =
     (if truthy (audioDataUrl a) \<and> starts e (DataUrl (the (audioDataUrl a)))
      then InlineAudio (the (audioDataUrl a))
      else spec_blob_stage e a)"

section \<open>The firing rule in the words of the specification\<close>

text \<open>
  An alarm is due when it is enabled, its time is the current minute string, its days
  are empty (or absent) or contain the current weekday, and its key for this minute is
  not recorded.
\<close>

definition spec_due :: "string \<Rightarrow> nat \<Rightarrow> string list \<Rightarrow> alarm \<Rightarrow> bool" where
  "spec_due currentMinute currentDay keys a =
     (enabled a \<and> time a = currentMinute \<and>
      (case days a of None \<Rightarrow> True | Some ds \<Rightarrow> ds = [] \<or> currentDay \<in> set ds) \<and>
      alarm_id a @ ''|'' @ currentMinute \<notin> set keys)"

section \<open>Invariants of the scheduler state\<close>

text \<open>A real \<^verbatim>\<open>Date\<close>: hours below 24, minutes and seconds below 60, weekday below 7.\<close>

definition valid_clock :: "clock \<Rightarrow> bool" where
  "valid_clock now = (hours now < 24 \<and> minutes now < 60 \<and> seconds now < 60 \<and> day now < 7)"

text \<open>
  The key of alarm id \<open>i\<close> for minute \<open>M\<close> is recorded and \<open>M\<close> is the remembered
  minute.
\<close>

definition blocked :: "string \<Rightarrow> string \<Rightarrow> fg_state \<Rightarrow> bool" where
  "blocked i M s = (lastCheckedMinute s = Some M \<and> i @ ''|'' @ M \<in> set (firedKeys s))"

definition sw_blocked :: "string \<Rightarrow> string \<Rightarrow> sw_state \<Rightarrow> bool" where
  "sw_blocked i M t = (swLastMinute t = Some M \<and> i @ ''|'' @ M \<in> set (swFiredKeys t))"

text \<open>Every recorded key ends in the separator followed by the remembered minute.\<close>

definition keys_inv :: "string option \<Rightarrow> string list \<Rightarrow> bool" where
  "keys_inv lastm keys =
     (case lastm of None \<Rightarrow> keys = [] | Some m \<Rightarrow> list_all (\<lambda>k. endsWith k (''|'' @ m)) keys)"

section \<open>Example values\<close>

definition ex_env :: env where
  "ex_env = \<lparr>swController = True, setItemOk = (\<lambda>_. True), notificationGranted = False,
     play = (\<lambda>_. PlayFulfilled), getAudioFromDB = (\<lambda>_. DbResult None), audioContext = CtxOk\<rparr>"

definition ex_alarm :: "string \<Rightarrow> string \<Rightarrow> nat list \<Rightarrow> alarm" where
  "ex_alarm i t ds = \<lparr>alarm_id = i, name = ''Alarm'', time = t, days = Some ds,
     category = Some ''regular'', repeat = True, enabled = True, audioKey = None,
     audioDataUrl = None, audioName = None\<rparr>"

definition ex_clock :: "nat \<Rightarrow> nat \<Rightarrow> nat \<Rightarrow> nat \<Rightarrow> clock" where
  "ex_clock h m sec d = \<lparr>hours = h, minutes = m, seconds = sec, day = d\<rparr>"

definition ex_fg_0700 :: fg_state where
  "ex_fg_0700 = (fg_init [ex_alarm ''a'' ''07:00'' [2]])
     \<lparr>firedKeys := [''a|07:00''], lastCheckedMinute := Some ''07:00''\<rparr>"

definition ex_sw_0700 :: sw_state where
  "ex_sw_0700 = \<lparr>swAlarms = [ex_alarm ''a'' ''07:00'' [2]], swFiredKeys = [''a|07:00''],
     swLastMinute = Some ''07:00''\<rparr>"

definition ex_ringing :: fg_state where
  "ex_ringing = fireAlarm ex_env (ex_alarm ''a'' ''07:00'' [2]) (fg_init [ex_alarm ''a'' ''07:00'' [2]])"

text \<open>A parser that knows two texts, and throws on every other one.\<close>

definition ex_parse :: "string \<Rightarrow> js_error + json" where
  "ex_parse raw =
     (if raw = ''[]'' then Inr (JArray [])
      else if raw = ''{}'' then Inr (JObject [])
      else Inl SyntaxError)"

text \<open>
  An environment that rejects the inline source and plays blobs, and an alarm whose
  audio is an inline payload.
\<close>

definition ex_env_rejecting :: env where
  "ex_env_rejecting = \<lparr>swController = True, setItemOk = (\<lambda>_. True), notificationGranted = False,
     play = (\<lambda>u. case u of DataUrl d \<Rightarrow> PlayRejected | ObjectUrl b \<Rightarrow> PlayFulfilled),
     getAudioFromDB = (\<lambda>k. DbResult (Some ''blob'')), audioContext = CtxOk\<rparr>"

definition ex_inline :: alarm where
  "ex_inline = (ex_alarm ''a'' ''07:00'' [])\<lparr>audioDataUrl := Some ''data:audio''\<rparr>"

section \<open>Basic facts\<close>

lemma endsWith_iff: "endsWith k s \<longleftrightarrow> (\<exists>p. k = p @ s)"
proof
  assume "endsWith k s"
  then have "k = take (length k - length s) k @ s"
    unfolding endsWith_def by (metis append_take_drop_id)
  then show "\<exists>p. k = p @ s" ..
next
  assume "\<exists>p. k = p @ s"
  then show "endsWith k s" unfolding endsWith_def by auto
qed

lemma endsWith_firedKey: "endsWith (firedKey a m) (''|'' @ m)"
  unfolding endsWith_iff firedKey_def by simp

lemma firedKey_purge: "firedKey a m \<in> set (purge m keys) \<longleftrightarrow> firedKey a m \<in> set keys"
  unfolding purge_def using endsWith_firedKey by simp

lemma playBeepFallback_frame:
  "alarms (playBeepFallback e s) = alarms s"
  "firedKeys (playBeepFallback e s) = firedKeys s"
  "lastCheckedMinute (playBeepFallback e s) = lastCheckedMinute s"
  "currentRinging (playBeepFallback e s) = currentRinging s"
  "overlayHidden (playBeepFallback e s) = overlayHidden s"
  "storage (playBeepFallback e s) = storage s"
  unfolding playBeepFallback_def by (simp_all split: ctx_result.split)

lemma startAudio_frame:
  "alarms (startAudio e u s) = alarms s"
  "firedKeys (startAudio e u s) = firedKeys s"
  "lastCheckedMinute (startAudio e u s) = lastCheckedMinute s"
  "currentRinging (startAudio e u s) = currentRinging s"
  "overlayHidden (startAudio e u s) = overlayHidden s"
  "storage (startAudio e u s) = storage s"
  unfolding startAudio_def by (simp_all add: playBeepFallback_frame split: play_result.split)

lemma stopCurrentAudio_frame:
  "alarms (stopCurrentAudio s) = alarms s"
  "firedKeys (stopCurrentAudio s) = firedKeys s"
  "lastCheckedMinute (stopCurrentAudio s) = lastCheckedMinute s"
  "currentRinging (stopCurrentAudio s) = currentRinging s"
  "overlayHidden (stopCurrentAudio s) = overlayHidden s"
  "storage (stopCurrentAudio s) = storage s"
  unfolding stopCurrentAudio_def stopBeep_def by simp_all

lemma showWebNotification_frame:
  "alarms (showWebNotification e a s) = alarms s"
  "firedKeys (showWebNotification e a s) = firedKeys s"
  "lastCheckedMinute (showWebNotification e a s) = lastCheckedMinute s"
  "currentRinging (showWebNotification e a s) = currentRinging s"
  "overlayHidden (showWebNotification e a s) = overlayHidden s"
  "storage (showWebNotification e a s) = storage s"
  unfolding showWebNotification_def by simp_all

lemma fireAlarm_frame:
  "alarms (fireAlarm e a s) = alarms s"
  "firedKeys (fireAlarm e a s) = firedKeys s"
  "lastCheckedMinute (fireAlarm e a s) = lastCheckedMinute s"
  "storage (fireAlarm e a s) = storage s"
  unfolding fireAlarm_def Let_def
  by (simp_all add: startAudio_frame playBeepFallback_frame stopCurrentAudio_frame
      showWebNotification_frame split: option.split db_result.split)

lemma fireAlarm_ringing:
  "currentRinging (fireAlarm e a s) = Some a"
  "overlayHidden (fireAlarm e a s) = False"
  unfolding fireAlarm_def Let_def
  by (simp_all add: startAudio_frame playBeepFallback_frame stopCurrentAudio_frame
      showWebNotification_frame split: option.split db_result.split)

lemma saveAlarms_frame:
  "alarms (fst (saveAlarms e s)) = alarms s"
  "firedKeys (fst (saveAlarms e s)) = firedKeys s"
  "lastCheckedMinute (fst (saveAlarms e s)) = lastCheckedMinute s"
  "currentRinging (fst (saveAlarms e s)) = currentRinging s"
  "overlayHidden (fst (saveAlarms e s)) = overlayHidden s"
  unfolding saveAlarms_def Let_def by simp_all

lemma fired_saveAlarms: "fired (snd (saveAlarms e s)) = []"
  unfolding saveAlarms_def syncAlarmsToSW_def Let_def by simp

lemma fired_append: "fired (xs @ ys) = fired xs @ fired ys"
  by (induction xs rule: fired.induct) simp_all

lemma code_due_iff:
  "(enabled a \<and> time a = m \<and> \<not> (hasDays a \<and> \<not> array_includes (days a) d)
     \<and> firedKey a m \<notin> set keys) = spec_due m d keys a"
  unfolding spec_due_def hasDays_def array_includes_def firedKey_def
  by (auto split: option.splits)


lemma tickLoop_find:
  "find (spec_due m d (firedKeys s)) rest = None \<Longrightarrow> tickLoop e m d i rest s = (s, [])"
  "find (spec_due m d (firedKeys s)) rest = Some a \<Longrightarrow>
     \<exists>j<length rest. rest ! j = a \<and> tickLoop e m d i rest s = fireDue e m (i + j) a s"
proof (induction rest arbitrary: i)
  case Nil
  { case 1 show ?case by simp }
  { case 2 then show ?case by simp }
next
  case (Cons b rest)
  { case 1
    then have nb: "\<not> spec_due m d (firedKeys s) b"
      and r: "find (spec_due m d (firedKeys s)) rest = None"
      by (auto split: if_splits)
    from nb have "\<not> enabled b \<or> time b \<noteq> m \<or> (hasDays b \<and> \<not> array_includes (days b) d)
      \<or> firedKey b m \<in> set (firedKeys s)"
      using code_due_iff [of b m d "firedKeys s"] by auto
    then show ?case using Cons.IH(1) [OF r] by auto }
  { case 2
    show ?case
    proof (cases "spec_due m d (firedKeys s) b")
      case True
      then have ab: "a = b" using 2 by simp
      from True have "enabled b" "time b = m" "\<not> (hasDays b \<and> \<not> array_includes (days b) d)"
        "firedKey b m \<notin> set (firedKeys s)"
        using code_due_iff [of b m d "firedKeys s"] by auto
      then have "tickLoop e m d i (b # rest) s = fireDue e m (i + 0) b s" by auto
      then show ?thesis using ab by (intro exI [of _ 0]) simp
    next
      case False
      then have r: "find (spec_due m d (firedKeys s)) rest = Some a" using 2 by simp
      from False have "\<not> enabled b \<or> time b \<noteq> m \<or> (hasDays b \<and> \<not> array_includes (days b) d)
        \<or> firedKey b m \<in> set (firedKeys s)"
        using code_due_iff [of b m d "firedKeys s"] by auto
      then have eq: "tickLoop e m d i (b # rest) s = tickLoop e m d (Suc i) rest s" by auto
      from Cons.IH(2) [OF r, of "Suc i"] obtain j where
        "j < length rest" "rest ! j = a" "tickLoop e m d (Suc i) rest s = fireDue e m (Suc i + j) a s"
        by blast
      then show ?thesis using eq by (intro exI [of _ "Suc j"]) simp
    qed }
qed

lemma fireDue_fired: "fired (snd (fireDue e m i a s)) = [a]"
  unfolding fireDue_def Let_def by (simp add: fired_append fired_saveAlarms)

lemma fireDue_keys: "firedKeys (fst (fireDue e m i a s)) = firedKeys s @ [firedKey a m]"
  unfolding fireDue_def Let_def by (simp add: saveAlarms_frame fireAlarm_frame)

lemma fireDue_last: "lastCheckedMinute (fst (fireDue e m i a s)) = lastCheckedMinute s"
  unfolding fireDue_def Let_def by (simp add: saveAlarms_frame fireAlarm_frame)

lemma fireDue_alarms:
  "alarms (fst (fireDue e m i a s)) =
     (if hasDays a then alarms s else (alarms s)[i := a\<lparr>enabled := False\<rparr>])"
  unfolding fireDue_def Let_def by (simp add: saveAlarms_frame fireAlarm_frame)

lemma fireDue_ringing: "currentRinging (fst (fireDue e m i a s)) = Some a"
  unfolding fireDue_def Let_def by (simp add: saveAlarms_frame fireAlarm_ringing)

lemma tickLoop_fired:
  "fired (snd (tickLoop e m d i rest s)) =
     (case find (spec_due m d (firedKeys s)) rest of None \<Rightarrow> [] | Some a \<Rightarrow> [a])"
proof (cases "find (spec_due m d (firedKeys s)) rest")
  case None
  then show ?thesis using tickLoop_find(1) [OF None, of e i] by simp
next
  case (Some a)
  then show ?thesis using tickLoop_find(2) [OF Some, of e i] by (auto simp: fireDue_fired)
qed

lemma tickLoop_keys:
  "firedKeys (fst (tickLoop e m d i rest s)) =
     firedKeys s @ map (\<lambda>a. firedKey a m) (fired (snd (tickLoop e m d i rest s)))"
proof (cases "find (spec_due m d (firedKeys s)) rest")
  case None
  then show ?thesis using tickLoop_find(1) [OF None, of e i] by simp
next
  case (Some a)
  then show ?thesis using tickLoop_find(2) [OF Some, of e i]
    by (auto simp: fireDue_fired fireDue_keys)
qed

lemma tickLoop_last: "lastCheckedMinute (fst (tickLoop e m d i rest s)) = lastCheckedMinute s"
proof (cases "find (spec_due m d (firedKeys s)) rest")
  case None
  then show ?thesis using tickLoop_find(1) [OF None, of e i] by simp
next
  case (Some a)
  then show ?thesis using tickLoop_find(2) [OF Some, of e i] by (auto simp: fireDue_last)
qed

lemma spec_due_purge: "spec_due m d (purge m keys) a = spec_due m d keys a"
  using firedKey_purge [of a m keys] unfolding spec_due_def firedKey_def by simp

lemma rollover_frame:
  "alarms (rollover m s) = alarms s"
  "currentRinging (rollover m s) = currentRinging s"
  "lastCheckedMinute (rollover m s) = Some m"
  unfolding rollover_def by auto

lemma spec_due_rollover: "spec_due m d (firedKeys (rollover m s)) = spec_due m d (firedKeys s)"
  unfolding rollover_def by (auto simp: spec_due_purge fun_eq_iff)

lemma swLoop_find:
  "find (spec_due m d (swFiredKeys s)) rest = None \<Longrightarrow> swLoop m d rest s = (s, [])"
  "find (spec_due m d (swFiredKeys s)) rest = Some a \<Longrightarrow>
     swLoop m d rest s =
       (s\<lparr>swFiredKeys := swFiredKeys s @ [firedKey a m]\<rparr>, [ShowAlarmNotification a])"
proof (induction rest)
  case Nil
  { case 1 show ?case by simp }
  { case 2 then show ?case by simp }
next
  case (Cons b rest)
  { case 1
    then have nb: "\<not> spec_due m d (swFiredKeys s) b"
      and r: "find (spec_due m d (swFiredKeys s)) rest = None"
      by (auto split: if_splits)
    from nb have "\<not> enabled b \<or> time b \<noteq> m \<or> (hasDays b \<and> \<not> array_includes (days b) d)
      \<or> firedKey b m \<in> set (swFiredKeys s)"
      using code_due_iff [of b m d "swFiredKeys s"] by auto
    then show ?case using Cons.IH(1) [OF r] by auto }
  { case 2
    show ?case
    proof (cases "spec_due m d (swFiredKeys s) b")
      case True
      then have ab: "a = b" using 2 by simp
      from True have "enabled b" "time b = m" "\<not> (hasDays b \<and> \<not> array_includes (days b) d)"
        "firedKey b m \<notin> set (swFiredKeys s)"
        using code_due_iff [of b m d "swFiredKeys s"] by auto
      then show ?thesis using ab by auto
    next
      case False
      then have r: "find (spec_due m d (swFiredKeys s)) rest = Some a" using 2 by simp
      from False have "\<not> enabled b \<or> time b \<noteq> m \<or> (hasDays b \<and> \<not> array_includes (days b) d)
        \<or> firedKey b m \<in> set (swFiredKeys s)"
        using code_due_iff [of b m d "swFiredKeys s"] by auto
      then show ?thesis using Cons.IH(2) [OF r] by auto
    qed }
qed

lemma spec_due_swRollover:
  "spec_due m d (swFiredKeys (swRollover m s)) = spec_due m d (swFiredKeys s)"
  unfolding swRollover_def by (auto simp: spec_due_purge fun_eq_iff)

lemma swRollover_alarms: "swAlarms (swRollover m s) = swAlarms s"
  unfolding swRollover_def by simp

lemma pad_small: "n < 10 \<Longrightarrow> pad n = [CHR ''0'', digit n]"
  unfolding pad_def padStart_def by (simp add: String_nat.simps)

lemma minuteOf_0700: "minuteOf (ex_clock 7 0 2 2) = ''07:00''"
  by (simp add: minuteOf_def ex_clock_def pad_def padStart_def String_nat.simps digit_def)

section \<open>Events and gates\<close>

lemma dismissAlarm_frame:
  "alarms (dismissAlarm s) = alarms s"
  "firedKeys (dismissAlarm s) = firedKeys s"
  "lastCheckedMinute (dismissAlarm s) = lastCheckedMinute s"
  unfolding dismissAlarm_def by (simp_all add: stopCurrentAudio_frame)

lemma onSwMessage_frame:
  "alarms (fst (onSwMessage e m s)) = alarms s"
  "firedKeys (fst (onSwMessage e m s)) = firedKeys s"
  "lastCheckedMinute (fst (onSwMessage e m s)) = lastCheckedMinute s"
  unfolding onSwMessage_def Let_def
  by (simp_all add: fireAlarm_frame dismissAlarm_frame split: message.split)

lemma toggleAlarm_frame:
  "firedKeys (fst (toggleAlarm e i c s)) = firedKeys s"
  "lastCheckedMinute (fst (toggleAlarm e i c s)) = lastCheckedMinute s"
  "currentRinging (fst (toggleAlarm e i c s)) = currentRinging s"
  "overlayHidden (fst (toggleAlarm e i c s)) = overlayHidden s"
  unfolding toggleAlarm_def by (simp_all add: saveAlarms_frame)

lemma deleteAlarm_frame:
  "firedKeys (fst (deleteAlarm e i s)) = firedKeys s"
  "lastCheckedMinute (fst (deleteAlarm e i s)) = lastCheckedMinute s"
  "currentRinging (fst (deleteAlarm e i s)) = currentRinging s"
  "overlayHidden (fst (deleteAlarm e i s)) = overlayHidden s"
  unfolding deleteAlarm_def Let_def by (simp_all add: saveAlarms_frame)

lemma saveAlarm_frame:
  "firedKeys (fst (saveAlarm e i d s)) = firedKeys s"
  "lastCheckedMinute (fst (saveAlarm e i d s)) = lastCheckedMinute s"
  "currentRinging (fst (saveAlarm e i d s)) = currentRinging s"
  "overlayHidden (fst (saveAlarm e i d s)) = overlayHidden s"
  unfolding saveAlarm_def Let_def by (simp_all add: saveAlarms_frame)

lemma fg_step_keys_frame:
  "(\<And>now. ev \<noteq> Tick now) \<Longrightarrow>
     firedKeys (fst (fg_step e ev s)) = firedKeys s \<and>
     lastCheckedMinute (fst (fg_step e ev s)) = lastCheckedMinute s"
  by (cases ev) (auto simp: onSwMessage_frame dismissAlarm_frame toggleAlarm_frame
      deleteAlarm_frame saveAlarm_frame)

text \<open>A tick either stops at a gate or runs the loop on the rolled-over state.\<close>

lemma updateClock_cases:
  "updateClock e now s = (rollover (minuteOf now) s, []) \<or>
   updateClock e now s =
     tickLoop e (minuteOf now) (day now) 0 (alarms s) (rollover (minuteOf now) s)"
  unfolding updateClock_def tickAlarms_def minuteOf_def Let_def
  by (simp add: rollover_frame)

lemma checkSwAlarms_cases:
  "checkSwAlarms now t = (swRollover (minuteOf now) t, []) \<or>
   checkSwAlarms now t =
     swLoop (minuteOf now) (day now) (swAlarms t) (swRollover (minuteOf now) t)"
  unfolding checkSwAlarms_def minuteOf_def Let_def
  by (simp add: swRollover_alarms)

lemma rollover_same: "lastCheckedMinute s = Some m \<Longrightarrow> rollover m s = s"
  unfolding rollover_def by simp

lemma swRollover_same: "swLastMinute s = Some m \<Longrightarrow> swRollover m s = s"
  unfolding swRollover_def by simp

lemma find_spec_due_key:
  "find (spec_due m d keys) xs = Some a \<Longrightarrow> firedKey a m \<notin> set keys \<and> enabled a \<and> a \<in> set xs"
  unfolding find_Some_iff spec_due_def firedKey_def by auto

text \<open>What one tick of the page does to the keys, and which alarm it can fire.\<close>

lemma updateClock_fired_cases:
  "fired (snd (updateClock e now s)) = [] \<and>
     firedKeys (fst (updateClock e now s)) = firedKeys (rollover (minuteOf now) s)
   \<or> (\<exists>a. fired (snd (updateClock e now s)) = [a] \<and>
        firedKey a (minuteOf now) \<notin> set (firedKeys (rollover (minuteOf now) s)) \<and>
        enabled a \<and> a \<in> set (alarms s) \<and>
        firedKeys (fst (updateClock e now s)) =
          firedKeys (rollover (minuteOf now) s) @ [firedKey a (minuteOf now)])"
proof -
  let ?m = "minuteOf now" and ?r = "rollover (minuteOf now) s"
  from updateClock_cases [of e now s] show ?thesis
  proof
    assume "updateClock e now s = (?r, [])"
    then show ?thesis by simp
  next
    assume u: "updateClock e now s = tickLoop e ?m (day now) 0 (alarms s) ?r"
    show ?thesis
    proof (cases "find (spec_due ?m (day now) (firedKeys ?r)) (alarms s)")
      case None
      from tickLoop_find(1) [OF None] show ?thesis unfolding u by simp
    next
      case (Some a)
      from tickLoop_find(2) [OF Some, of e 0] find_spec_due_key [OF Some]
      show ?thesis unfolding u by (auto simp: fireDue_fired fireDue_keys)
    qed
  qed
qed

lemma updateClock_last: "lastCheckedMinute (fst (updateClock e now s)) = Some (minuteOf now)"
  using updateClock_cases [of e now s] by (auto simp: rollover_frame tickLoop_last)

lemma checkSwAlarms_notified_cases:
  "notified (snd (checkSwAlarms now t)) = [] \<and>
     swFiredKeys (fst (checkSwAlarms now t)) = swFiredKeys (swRollover (minuteOf now) t)
   \<or> (\<exists>a. notified (snd (checkSwAlarms now t)) = [a] \<and>
        firedKey a (minuteOf now) \<notin> set (swFiredKeys (swRollover (minuteOf now) t)) \<and>
        enabled a \<and> a \<in> set (swAlarms t) \<and>
        swFiredKeys (fst (checkSwAlarms now t)) =
          swFiredKeys (swRollover (minuteOf now) t) @ [firedKey a (minuteOf now)])"
proof -
  let ?m = "minuteOf now" and ?r = "swRollover (minuteOf now) t"
  from checkSwAlarms_cases [of now t] show ?thesis
  proof
    assume "checkSwAlarms now t = (?r, [])"
    then show ?thesis by simp
  next
    assume u: "checkSwAlarms now t = swLoop ?m (day now) (swAlarms t) ?r"
    show ?thesis
    proof (cases "find (spec_due ?m (day now) (swFiredKeys ?r)) (swAlarms t)")
      case None
      from swLoop_find(1) [OF None] show ?thesis unfolding u by simp
    next
      case (Some a)
      from swLoop_find(2) [OF Some] find_spec_due_key [OF Some]
      show ?thesis unfolding u by auto
    qed
  qed
qed

lemma checkSwAlarms_frame:
  "swLastMinute (fst (checkSwAlarms now t)) = Some (minuteOf now)"
  "swAlarms (fst (checkSwAlarms now t)) = swAlarms t"
proof -
  let ?m = "minuteOf now" and ?r = "swRollover (minuteOf now) t"
  have l: "swLastMinute ?r = Some ?m" unfolding swRollover_def by simp
  have "swLastMinute (fst (checkSwAlarms now t)) = Some ?m \<and>
        swAlarms (fst (checkSwAlarms now t)) = swAlarms t"
    using checkSwAlarms_cases [of now t]
  proof
    assume "checkSwAlarms now t = (?r, [])"
    then show ?thesis using l by (simp add: swRollover_alarms)
  next
    assume u: "checkSwAlarms now t = swLoop ?m (day now) (swAlarms t) ?r"
    show ?thesis
    proof (cases "find (spec_due ?m (day now) (swFiredKeys ?r)) (swAlarms t)")
      case None
      from swLoop_find(1) [OF None] show ?thesis unfolding u using l
        by (simp add: swRollover_alarms)
    next
      case (Some a)
      from swLoop_find(2) [OF Some] show ?thesis unfolding u using l
        by (simp add: swRollover_alarms)
    qed
  qed
  then show "swLastMinute (fst (checkSwAlarms now t)) = Some (minuteOf now)"
    "swAlarms (fst (checkSwAlarms now t)) = swAlarms t" by simp_all
qed





lemma tick_at_blocked:
  assumes "blocked i M s" "minuteOf now = M"
  shows "blocked i M (fst (updateClock e now s)) \<and>
         filter (\<lambda>a. alarm_id a = i) (fired (snd (updateClock e now s))) = []"
proof -
  have r: "rollover (minuteOf now) s = s"
    using assms rollover_same unfolding blocked_def by simp
  have l: "lastCheckedMinute (fst (updateClock e now s)) = Some M"
    using updateClock_last [of e now s] assms by simp
  from updateClock_fired_cases [of e now s] show ?thesis
  proof (elim disjE conjE exE)
    assume "fired (snd (updateClock e now s)) = []"
      "firedKeys (fst (updateClock e now s)) = firedKeys (rollover (minuteOf now) s)"
    then show ?thesis using assms l r unfolding blocked_def by simp
  next
    fix a
    assume f: "fired (snd (updateClock e now s)) = [a]"
      and n: "firedKey a (minuteOf now) \<notin> set (firedKeys (rollover (minuteOf now) s))"
      and k: "firedKeys (fst (updateClock e now s)) =
          firedKeys (rollover (minuteOf now) s) @ [firedKey a (minuteOf now)]"
    have "alarm_id a \<noteq> i" using n assms r unfolding blocked_def firedKey_def by auto
    then show ?thesis using f k assms l r unfolding blocked_def by simp
  qed
qed

lemma step_at_blocked:
  assumes "blocked i M s" "\<And>now. ev = Tick now \<Longrightarrow> minuteOf now = M"
  shows "blocked i M (fst (fg_step e ev s)) \<and>
         filter (\<lambda>a. alarm_id a = i) (tickFired [(ev, snd (fg_step e ev s))]) = []"
proof (cases "\<exists>now. ev = Tick now")
  case True
  then obtain now where ev: "ev = Tick now" by blast
  show ?thesis using tick_at_blocked [OF assms(1) assms(2) [OF ev], of e] unfolding ev by simp
next
  case False
  then have nt: "\<And>now. ev \<noteq> Tick now" by blast
  have "tickFired [(ev, snd (fg_step e ev s))] = []" using nt by (cases ev) auto
  then show ?thesis using fg_step_keys_frame [OF nt, of e s] assms(1)
    unfolding blocked_def by simp
qed

lemma tickFired_Cons: "tickFired ((ev, fx) # tr) = tickFired [(ev, fx)] @ tickFired tr"
  by (cases ev) simp_all

lemma tickFired_trace_Cons:
  "tickFired (fg_trace e (ev # evs) s) =
     tickFired [(ev, snd (fg_step e ev s))] @ tickFired (fg_trace e evs (fst (fg_step e ev s)))"
  unfolding fg_trace.simps by (rule tickFired_Cons)

lemma run_blocked:
  "blocked i M s \<Longrightarrow> (\<And>now. Tick now \<in> set evs \<Longrightarrow> minuteOf now = M) \<Longrightarrow>
     filter (\<lambda>a. alarm_id a = i) (tickFired (fg_trace e evs s)) = []"
proof (induction evs arbitrary: s)
  case Nil
  show ?case by simp
next
  case (Cons ev evs)
  have st: "blocked i M (fst (fg_step e ev s)) \<and>
         filter (\<lambda>a. alarm_id a = i) (tickFired [(ev, snd (fg_step e ev s))]) = []"
    using step_at_blocked [OF Cons.prems(1), of ev e] Cons.prems(2) by simp
  have "filter (\<lambda>a. alarm_id a = i) (tickFired (fg_trace e evs (fst (fg_step e ev s)))) = []"
    using Cons.IH [of "fst (fg_step e ev s)"] st Cons.prems(2) by simp
  then show ?case using st unfolding tickFired_trace_Cons by simp
qed

lemma tick_fire_blocks:
  assumes "minuteOf now = M"
  shows "filter (\<lambda>a. alarm_id a = i) (fired (snd (updateClock e now s))) = [] \<or>
         (length (filter (\<lambda>a. alarm_id a = i) (fired (snd (updateClock e now s)))) = 1 \<and>
          blocked i M (fst (updateClock e now s)))"
proof -
  have l: "lastCheckedMinute (fst (updateClock e now s)) = Some M"
    using updateClock_last [of e now s] assms by simp
  from updateClock_fired_cases [of e now s] show ?thesis
  proof (elim disjE conjE exE)
    assume "fired (snd (updateClock e now s)) = []"
    then show ?thesis by simp
  next
    fix a
    assume f: "fired (snd (updateClock e now s)) = [a]"
      and k: "firedKeys (fst (updateClock e now s)) =
          firedKeys (rollover (minuteOf now) s) @ [firedKey a (minuteOf now)]"
    show ?thesis using f k l assms unfolding blocked_def firedKey_def by auto
  qed
qed

lemma fires_once_per_minute_fg:
  "(\<forall>now. Tick now \<in> set evs \<longrightarrow> minuteOf now = M) \<Longrightarrow>
     length (filter (\<lambda>a. alarm_id a = i) (tickFired (fg_trace e evs s))) \<le> 1"
proof (induction evs arbitrary: s)
  case Nil
  show ?case by simp
next
  case (Cons ev evs)
  let ?s = "fst (fg_step e ev s)" and ?fx = "snd (fg_step e ev s)"
  have rest: "\<forall>now. Tick now \<in> set evs \<longrightarrow> minuteOf now = M" using Cons.prems by simp
  have split: "tickFired (fg_trace e (ev # evs) s) =
      tickFired [(ev, ?fx)] @ tickFired (fg_trace e evs ?s)"
    by (rule tickFired_trace_Cons)
  show ?case
  proof (cases "filter (\<lambda>a. alarm_id a = i) (tickFired [(ev, ?fx)]) = []")
    case True
    then show ?thesis using Cons.IH [OF rest, of ?s] unfolding split by simp
  next
    case False
    then obtain now where ev: "ev = Tick now" by (cases ev) auto
    have m: "minuteOf now = M" using Cons.prems ev by simp
    from tick_fire_blocks [OF m, of i e s] False
    have one: "length (filter (\<lambda>a. alarm_id a = i) (fired (snd (updateClock e now s)))) = 1"
      and b: "blocked i M (fst (updateClock e now s))"
      unfolding ev by auto
    have "filter (\<lambda>a. alarm_id a = i) (tickFired (fg_trace e evs ?s)) = []"
      using run_blocked [of i M ?s evs e] b rest unfolding ev by simp
    then show ?thesis using one unfolding split ev by simp
  qed
qed

section \<open>Dedup keys\<close>

lemma notified_append: "notified (xs @ ys) = notified xs @ notified ys"
  by (induction xs rule: notified.induct) simp_all

lemma sw_tick_at_blocked:
  assumes "sw_blocked i M t" "minuteOf now = M"
  shows "sw_blocked i M (fst (checkSwAlarms now t)) \<and>
         filter (\<lambda>a. alarm_id a = i) (notified (snd (checkSwAlarms now t))) = []"
proof -
  have r: "swRollover (minuteOf now) t = t"
    using assms swRollover_same unfolding sw_blocked_def by simp
  have l: "swLastMinute (fst (checkSwAlarms now t)) = Some M"
    using checkSwAlarms_frame(1) [of now t] assms by simp
  from checkSwAlarms_notified_cases [of now t] show ?thesis
  proof (elim disjE conjE exE)
    assume "notified (snd (checkSwAlarms now t)) = []"
      "swFiredKeys (fst (checkSwAlarms now t)) = swFiredKeys (swRollover (minuteOf now) t)"
    then show ?thesis using assms l r unfolding sw_blocked_def by simp
  next
    fix a
    assume f: "notified (snd (checkSwAlarms now t)) = [a]"
      and n: "firedKey a (minuteOf now) \<notin> set (swFiredKeys (swRollover (minuteOf now) t))"
      and k: "swFiredKeys (fst (checkSwAlarms now t)) =
          swFiredKeys (swRollover (minuteOf now) t) @ [firedKey a (minuteOf now)]"
    have "alarm_id a \<noteq> i" using n assms r unfolding sw_blocked_def firedKey_def by auto
    then show ?thesis using f k assms l r unfolding sw_blocked_def by simp
  qed
qed

lemma sw_blocked_sync: "sw_blocked i M (t\<lparr>swAlarms := as\<rparr>) = sw_blocked i M t"
  unfolding sw_blocked_def by simp

lemma sw_step_at_blocked:
  assumes "sw_blocked i M t" "minuteOf (sw_clock ev) = M"
  shows "sw_blocked i M (fst (sw_step ev t)) \<and>
         filter (\<lambda>a. alarm_id a = i) (notified (snd (sw_step ev t))) = []"
proof (cases ev)
  case (SwInterval now)
  then show ?thesis using sw_tick_at_blocked [OF assms(1), of now] assms(2)
    by (simp add: sw_clock_def)
next
  case (SwOnMessage m now)
  have c: "minuteOf now = M" using assms(2) SwOnMessage by (simp add: sw_clock_def)
  show ?thesis
  proof (cases m)
    case (SYNC_ALARMS as)
    have "sw_blocked i M (t\<lparr>swAlarms := as\<rparr>)" using assms(1) by (simp add: sw_blocked_sync)
    from sw_tick_at_blocked [OF this c] show ?thesis using SwOnMessage SYNC_ALARMS by simp
  qed (use assms(1) SwOnMessage in simp_all)
qed

lemma sw_run_blocked:
  "sw_blocked i M t \<Longrightarrow> (\<And>ev. ev \<in> set evs \<Longrightarrow> minuteOf (sw_clock ev) = M) \<Longrightarrow>
     filter (\<lambda>a. alarm_id a = i) (notified (sw_trace evs t)) = []"
proof (induction evs arbitrary: t)
  case Nil
  show ?case by simp
next
  case (Cons ev evs)
  have st: "sw_blocked i M (fst (sw_step ev t)) \<and>
         filter (\<lambda>a. alarm_id a = i) (notified (snd (sw_step ev t))) = []"
    using sw_step_at_blocked [OF Cons.prems(1), of ev] Cons.prems(2) by simp
  have "filter (\<lambda>a. alarm_id a = i) (notified (sw_trace evs (fst (sw_step ev t)))) = []"
    using Cons.IH [of "fst (sw_step ev t)"] st Cons.prems(2) by simp
  then show ?case using st by (simp add: notified_append)
qed

lemma sw_tick_fire_blocks:
  assumes "minuteOf now = M"
  shows "filter (\<lambda>a. alarm_id a = i) (notified (snd (checkSwAlarms now t))) = [] \<or>
         (length (filter (\<lambda>a. alarm_id a = i) (notified (snd (checkSwAlarms now t)))) = 1 \<and>
          sw_blocked i M (fst (checkSwAlarms now t)))"
proof -
  have l: "swLastMinute (fst (checkSwAlarms now t)) = Some M"
    using checkSwAlarms_frame(1) [of now t] assms by simp
  from checkSwAlarms_notified_cases [of now t] show ?thesis
  proof (elim disjE conjE exE)
    assume "notified (snd (checkSwAlarms now t)) = []"
    then show ?thesis by simp
  next
    fix a
    assume f: "notified (snd (checkSwAlarms now t)) = [a]"
      and k: "swFiredKeys (fst (checkSwAlarms now t)) =
          swFiredKeys (swRollover (minuteOf now) t) @ [firedKey a (minuteOf now)]"
    show ?thesis using f k l assms unfolding sw_blocked_def firedKey_def by auto
  qed
qed

lemma sw_step_fire_blocks:
  assumes "minuteOf (sw_clock ev) = M"
  shows "filter (\<lambda>a. alarm_id a = i) (notified (snd (sw_step ev t))) = [] \<or>
         (length (filter (\<lambda>a. alarm_id a = i) (notified (snd (sw_step ev t)))) = 1 \<and>
          sw_blocked i M (fst (sw_step ev t)))"
proof (cases ev)
  case (SwInterval now)
  then show ?thesis using sw_tick_fire_blocks [of now M i t] assms by (simp add: sw_clock_def)
next
  case (SwOnMessage m now)
  have c: "minuteOf now = M" using assms SwOnMessage by (simp add: sw_clock_def)
  show ?thesis
  proof (cases m)
    case (SYNC_ALARMS as)
    from sw_tick_fire_blocks [OF c, of i "t\<lparr>swAlarms := as\<rparr>"] show ?thesis
      using SwOnMessage SYNC_ALARMS by simp
  qed (use SwOnMessage in simp_all)
qed

lemma fires_once_per_minute_sw:
  "(\<forall>ev \<in> set evs. minuteOf (sw_clock ev) = M) \<Longrightarrow>
     length (filter (\<lambda>a. alarm_id a = i) (notified (sw_trace evs t))) \<le> 1"
proof (induction evs arbitrary: t)
  case Nil
  show ?case by simp
next
  case (Cons ev evs)
  let ?t = "fst (sw_step ev t)" and ?fx = "snd (sw_step ev t)"
  have rest: "\<forall>ev \<in> set evs. minuteOf (sw_clock ev) = M" using Cons.prems by simp
  have m: "minuteOf (sw_clock ev) = M" using Cons.prems by simp
  from sw_step_fire_blocks [OF m, of i t] show ?case
  proof (elim disjE conjE)
    assume "filter (\<lambda>a. alarm_id a = i) (notified ?fx) = []"
    then show ?thesis using Cons.IH [OF rest, of ?t] by (simp add: notified_append)
  next
    assume one: "length (filter (\<lambda>a. alarm_id a = i) (notified ?fx)) = 1"
      and b: "sw_blocked i M ?t"
    have "filter (\<lambda>a. alarm_id a = i) (notified (sw_trace evs ?t)) = []"
      using sw_run_blocked [OF b, of evs] rest by simp
    then show ?thesis using one by (simp add: notified_append)
  qed
qed



lemma keys_inv_iff:
  "keys_inv lastm keys \<longleftrightarrow> (\<forall>k \<in> set keys. \<exists>m. lastm = Some m \<and> endsWith k (''|'' @ m))"
  unfolding keys_inv_def by (cases lastm) (auto simp: list_all_iff)

lemma keys_inv_purge: "keys_inv (Some m) (purge m keys)"
  unfolding keys_inv_def purge_def by (simp add: list_all_iff)

lemma keys_inv_rollover: "keys_inv (lastCheckedMinute s) (firedKeys s) \<Longrightarrow>
  keys_inv (Some m) (firedKeys (rollover m s))"
  unfolding rollover_def using keys_inv_purge by auto

lemma keys_inv_swRollover: "keys_inv (swLastMinute s) (swFiredKeys s) \<Longrightarrow>
  keys_inv (Some m) (swFiredKeys (swRollover m s))"
  unfolding swRollover_def using keys_inv_purge by auto

lemma keys_inv_snoc: "keys_inv (Some m) keys \<Longrightarrow> keys_inv (Some m) (keys @ [firedKey a m])"
  unfolding keys_inv_def using endsWith_firedKey by simp

lemma updateClock_inv:
  assumes "keys_inv (lastCheckedMinute s) (firedKeys s)"
  shows "keys_inv (lastCheckedMinute (fst (updateClock e now s)))
           (firedKeys (fst (updateClock e now s)))"
  using updateClock_fired_cases [of e now s] keys_inv_rollover [OF assms, of "minuteOf now"]
  unfolding updateClock_last by (auto simp: keys_inv_snoc)

lemma checkSwAlarms_inv:
  assumes "keys_inv (swLastMinute t) (swFiredKeys t)"
  shows "keys_inv (swLastMinute (fst (checkSwAlarms now t)))
           (swFiredKeys (fst (checkSwAlarms now t)))"
  using checkSwAlarms_notified_cases [of now t] keys_inv_swRollover [OF assms, of "minuteOf now"]
  unfolding checkSwAlarms_frame by (auto simp: keys_inv_snoc)

lemma fg_step_inv:
  assumes "keys_inv (lastCheckedMinute s) (firedKeys s)"
  shows "keys_inv (lastCheckedMinute (fst (fg_step e ev s))) (firedKeys (fst (fg_step e ev s)))"
proof (cases "\<exists>now. ev = Tick now")
  case True
  then show ?thesis using updateClock_inv [OF assms] by auto
next
  case False
  then have "\<And>now. ev \<noteq> Tick now" by blast
  from fg_step_keys_frame [OF this, of e s] show ?thesis using assms by simp
qed

lemma sw_step_inv:
  assumes "keys_inv (swLastMinute t) (swFiredKeys t)"
  shows "keys_inv (swLastMinute (fst (sw_step ev t))) (swFiredKeys (fst (sw_step ev t)))"
proof (cases ev)
  case (SwInterval now)
  then show ?thesis using checkSwAlarms_inv [OF assms] by simp
next
  case (SwOnMessage m now)
  show ?thesis
  proof (cases m)
    case (SYNC_ALARMS as)
    have "keys_inv (swLastMinute (t\<lparr>swAlarms := as\<rparr>)) (swFiredKeys (t\<lparr>swAlarms := as\<rparr>))"
      using assms by simp
    from checkSwAlarms_inv [OF this] show ?thesis using SwOnMessage SYNC_ALARMS by simp
  qed (use assms SwOnMessage in simp_all)
qed

lemma fg_exec_inv:
  "keys_inv (lastCheckedMinute s) (firedKeys s) \<Longrightarrow>
   keys_inv (lastCheckedMinute (fg_exec e evs s)) (firedKeys (fg_exec e evs s))"
  by (induction evs arbitrary: s) (simp_all add: fg_step_inv)

lemma sw_exec_inv:
  "keys_inv (swLastMinute t) (swFiredKeys t) \<Longrightarrow>
   keys_inv (swLastMinute (sw_exec evs t)) (swFiredKeys (sw_exec evs t))"
  by (induction evs arbitrary: t) (simp_all add: sw_step_inv)

lemma init_inv:
  "keys_inv (lastCheckedMinute (fg_init as)) (firedKeys (fg_init as))"
  "keys_inv (swLastMinute sw_init) (swFiredKeys sw_init)"
  unfolding keys_inv_def fg_init_def sw_init_def by simp_all

lemma String_nat_digit: "n < 10 \<Longrightarrow> String_nat n = [digit n]"
  by (simp add: String_nat.simps [of n])

lemma length_String_nat: "n < 100 \<Longrightarrow> length (String_nat n) \<le> 2"
proof (cases "n < 10")
  case True
  then show ?thesis by (simp add: String_nat_digit)
next
  case False
  assume "n < 100"
  then have "n div 10 < 10" by simp
  then have "String_nat (n div 10) = [digit (n div 10)]" by (rule String_nat_digit)
  then show ?thesis using False by (simp add: String_nat.simps [of n])
qed

lemma length_pad: "n < 100 \<Longrightarrow> length (pad n) = 2"
  unfolding pad_def padStart_def using length_String_nat [of n] by simp

lemma length_minuteOf: "hours now < 24 \<Longrightarrow> minutes now < 60 \<Longrightarrow> length (minuteOf now) = 5"
  unfolding minuteOf_def by (simp add: length_pad)

lemma endsWith_same_length:
  "endsWith (i @ ''|'' @ m') (''|'' @ m) \<Longrightarrow> length m' = length m \<Longrightarrow> m' = m"
  unfolding endsWith_iff by auto

lemmas eval_defs = updateClock_def tickAlarms_def rollover_def purge_def endsWith_def
  fireDue_def fireAlarm_def fullAlarm_def showWebNotification_def stopCurrentAudio_def
  stopBeep_def playBeepFallback_def startAudio_def saveAlarms_def syncAlarmsToSW_def
  dismissAlarm_def hasDays_def array_includes_def firedKey_def fg_init_def ex_env_def
  ex_alarm_def ex_clock_def pad_def padStart_def String_nat.simps digit_def slim_def
  Let_def checkSwAlarms_def swRollover_def sw_init_def minuteOf_def sw_clock_def
  onSwMessage_def

lemma ex_run_fires_once:
  "tickFired (fg_trace ex_env [Tick (ex_clock 7 0 0 2), Dismiss, Tick (ex_clock 7 0 1 2)]
        (fg_init [ex_alarm ''a'' ''07:00'' [2]])) = [ex_alarm ''a'' ''07:00'' [2]]"
  by (simp add: eval_defs)


lemma survives_tick:
  assumes "k \<in> set (firedKeys s)"
  shows "k \<in> set (firedKeys (fst (updateClock e now s))) \<longleftrightarrow>
         (lastCheckedMinute s = Some (minuteOf now) \<or> endsWith k (''|'' @ minuteOf now))"
proof (cases "lastCheckedMinute s = Some (minuteOf now)")
  case True
  then have "rollover (minuteOf now) s = s" by (rule rollover_same)
  then show ?thesis using True assms updateClock_fired_cases [of e now s] by auto
next
  case False
  then have r: "firedKeys (rollover (minuteOf now) s) = purge (minuteOf now) (firedKeys s)"
    unfolding rollover_def by auto
  have p: "k \<in> set (purge (minuteOf now) (firedKeys s)) \<longleftrightarrow> endsWith k (''|'' @ minuteOf now)"
    using assms unfolding purge_def by simp
  have n: "\<And>a. k = firedKey a (minuteOf now) \<Longrightarrow> endsWith k (''|'' @ minuteOf now)"
    using endsWith_firedKey by simp
  show ?thesis using False updateClock_fired_cases [of e now s] r p n by auto
qed

lemma survives_sw_tick:
  assumes "k \<in> set (swFiredKeys t)"
  shows "k \<in> set (swFiredKeys (fst (checkSwAlarms now t))) \<longleftrightarrow>
         (swLastMinute t = Some (minuteOf now) \<or> endsWith k (''|'' @ minuteOf now))"
proof (cases "swLastMinute t = Some (minuteOf now)")
  case True
  then have "swRollover (minuteOf now) t = t" by (rule swRollover_same)
  then show ?thesis using True assms checkSwAlarms_notified_cases [of now t] by auto
next
  case False
  then have r: "swFiredKeys (swRollover (minuteOf now) t) = purge (minuteOf now) (swFiredKeys t)"
    unfolding swRollover_def by auto
  have p: "k \<in> set (purge (minuteOf now) (swFiredKeys t)) \<longleftrightarrow> endsWith k (''|'' @ minuteOf now)"
    using assms unfolding purge_def by simp
  have n: "\<And>a. k = firedKey a (minuteOf now) \<Longrightarrow> endsWith k (''|'' @ minuteOf now)"
    using endsWith_firedKey by simp
  show ?thesis using False checkSwAlarms_notified_cases [of now t] r p n by auto
qed

lemma other_minute_absent:
  assumes "keys_inv (Some m) keys" "length m' = length m" "m' \<noteq> m"
  shows "firedKey a m' \<notin> set keys"
proof
  assume "firedKey a m' \<in> set keys"
  then have "endsWith (alarm_id a @ ''|'' @ m') (''|'' @ m)"
    using assms(1) unfolding keys_inv_iff firedKey_def by auto
  from endsWith_same_length [OF this assms(2)] show False using assms(3) by simp
qed

section \<open>The window gate\<close>

lemma updateClock_late:
  "seconds now > 4 \<Longrightarrow> updateClock e now s = (rollover (minuteOf now) s, [])"
  unfolding updateClock_def tickAlarms_def minuteOf_def Let_def by simp

lemma checkSwAlarms_late:
  "seconds now > 30 \<Longrightarrow> checkSwAlarms now t = (swRollover (minuteOf now) t, [])"
  unfolding checkSwAlarms_def minuteOf_def Let_def by simp

lemma updateClock_ringing:
  "currentRinging s \<noteq> None \<Longrightarrow> updateClock e now s = (rollover (minuteOf now) s, [])"
  unfolding updateClock_def tickAlarms_def minuteOf_def Let_def by (simp add: rollover_frame)

lemma updateClock_open:
  "seconds now \<le> 4 \<Longrightarrow> currentRinging s = None \<Longrightarrow>
   updateClock e now s =
     tickLoop e (minuteOf now) (day now) 0 (alarms s) (rollover (minuteOf now) s)"
  unfolding updateClock_def tickAlarms_def minuteOf_def Let_def by (simp add: rollover_frame)

lemma late_ticks_fire_nothing:
  "(\<And>c. Tick c \<in> set evs \<Longrightarrow> seconds c > 4) \<Longrightarrow> tickFired (fg_trace e evs s) = []"
proof (induction evs arbitrary: s)
  case Nil
  show ?case by simp
next
  case (Cons ev evs)
  have "tickFired [(ev, snd (fg_step e ev s))] = []"
  proof (cases ev)
    case (Tick c)
    then have "seconds c > 4" using Cons.prems by simp
    then show ?thesis using Tick by (simp add: updateClock_late)
  qed simp_all
  moreover have "tickFired (fg_trace e evs (fst (fg_step e ev s))) = []"
    using Cons.IH Cons.prems by simp
  ultimately show ?case unfolding tickFired_trace_Cons by simp
qed

lemma set_tickClocks: "set (tickClocks evs) = {c. Tick c \<in> set evs}"
  by (induction evs rule: tickClocks.induct) auto

lemma late_first_tick:
  assumes "sorted (map seconds (now # tickClocks evs))" "seconds now > 4"
  shows "tickFired (fg_trace e (Tick now # evs) s) = []"
proof (rule late_ticks_fire_nothing)
  fix c assume "Tick c \<in> set (Tick now # evs)"
  then have "c = now \<or> c \<in> set (tickClocks evs)" by (auto simp: set_tickClocks)
  then show "seconds c > 4" using assms by auto
qed

lemma late_sw_fires_nothing:
  "(\<And>ev. ev \<in> set evs \<Longrightarrow> seconds (sw_clock ev) > 30) \<Longrightarrow> notified (sw_trace evs t) = []"
proof (induction evs arbitrary: t)
  case Nil
  show ?case by simp
next
  case (Cons ev evs)
  have l: "seconds (sw_clock ev) > 30" using Cons.prems by simp
  have "notified (snd (sw_step ev t)) = []"
  proof (cases ev)
    case (SwInterval c)
    then show ?thesis using l by (simp add: sw_clock_def checkSwAlarms_late)
  next
    case (SwOnMessage m c)
    then show ?thesis using l by (cases m) (simp_all add: sw_clock_def checkSwAlarms_late)
  qed
  moreover have "notified (sw_trace evs (fst (sw_step ev t))) = []"
    using Cons.IH Cons.prems by simp
  ultimately show ?case by (simp add: notified_append)
qed

section \<open>One-shot alarms\<close>

lemma tickLoop_alarms_cases:
  "find (spec_due m d (firedKeys s)) xs = Some a \<Longrightarrow>
     \<exists>j<length xs. xs ! j = a \<and>
       alarms (fst (tickLoop e m d 0 xs s)) =
         (if hasDays a then alarms s else (alarms s)[j := a\<lparr>enabled := False\<rparr>]) \<and>
       tickLoop e m d 0 xs s = fireDue e m j a s"
  using tickLoop_find(2) [of m d s xs a e 0] by (auto simp: fireDue_alarms)

lemma updateClock_alarms_cases:
  "alarms (fst (updateClock e now s)) = alarms s \<or>
   (\<exists>a j. fired (snd (updateClock e now s)) = [a] \<and> j < length (alarms s) \<and>
      alarms (fst (updateClock e now s)) = (alarms s)[j := a\<lparr>enabled := False\<rparr>])"
proof -
  let ?m = "minuteOf now" and ?r = "rollover (minuteOf now) s"
  from updateClock_cases [of e now s] show ?thesis
  proof
    assume "updateClock e now s = (?r, [])"
    then show ?thesis by (simp add: rollover_frame)
  next
    assume u: "updateClock e now s = tickLoop e ?m (day now) 0 (alarms s) ?r"
    show ?thesis
    proof (cases "find (spec_due ?m (day now) (firedKeys ?r)) (alarms s)")
      case None
      from tickLoop_find(1) [OF None] show ?thesis unfolding u by (simp add: rollover_frame)
    next
      case (Some a)
      from tickLoop_alarms_cases [OF Some, of e] obtain j where
        j: "j < length (alarms s)" "alarms s ! j = a"
        "alarms (fst (tickLoop e ?m (day now) 0 (alarms s) ?r)) =
         (if hasDays a then alarms ?r else (alarms ?r)[j := a\<lparr>enabled := False\<rparr>])"
        "tickLoop e ?m (day now) 0 (alarms s) ?r = fireDue e ?m j a ?r"
        by blast
      show ?thesis
      proof (cases "hasDays a")
        case True
        then show ?thesis using j unfolding u by (simp add: rollover_frame)
      next
        case False
        then have "fired (snd (updateClock e now s)) = [a] \<and> j < length (alarms s) \<and>
          alarms (fst (updateClock e now s)) = (alarms s)[j := a\<lparr>enabled := False\<rparr>]"
          using j unfolding u by (simp add: rollover_frame fireDue_fired)
        then show ?thesis by blast
      qed
    qed
  qed
qed

text \<open>Replacing an element by a disabled one keeps "every alarm with id x is disabled".\<close>

lemma disabled_update:
  assumes "\<forall>b \<in> set xs. alarm_id b = x \<longrightarrow> \<not> enabled b" "\<not> enabled y \<or> alarm_id y \<noteq> x"
  shows "\<forall>b \<in> set (xs[j := y]). alarm_id b = x \<longrightarrow> \<not> enabled b"
proof
  fix b assume "b \<in> set (xs[j := y])"
  then have "b = y \<or> b \<in> set xs" using set_update_subset_insert [of xs j y] by auto
  then show "alarm_id b = x \<longrightarrow> \<not> enabled b" using assms by auto
qed

lemma saveAlarm_alarms:
  "alarms (fst (saveAlarm e i d s)) =
     alarms s @ [d\<lparr>alarm_id := savedId i d, enabled := True, audioDataUrl := None\<rparr>] \<or>
   (\<exists>j. alarms (fst (saveAlarm e i d s)) =
     (alarms s)[j := d\<lparr>alarm_id := savedId i d, enabled := True, audioDataUrl := None\<rparr>])"
  unfolding saveAlarm_def Let_def by (auto simp: saveAlarms_frame split: option.split)

lemma step_keeps_disabled:
  assumes "\<forall>b \<in> set (alarms s). alarm_id b = x \<longrightarrow> \<not> enabled b" "\<not> enables x s ev"
  shows "(\<forall>b \<in> set (alarms (fst (fg_step e ev s))). alarm_id b = x \<longrightarrow> \<not> enabled b) \<and>
         (\<forall>b \<in> set (tickFired [(ev, snd (fg_step e ev s))]). alarm_id b \<noteq> x)"
proof (cases ev)
  case (Tick now)
  have f: "\<forall>b \<in> set (fired (snd (updateClock e now s))). alarm_id b \<noteq> x"
    using updateClock_fired_cases [of e now s] assms(1) by auto
  have "\<forall>b \<in> set (alarms (fst (updateClock e now s))). alarm_id b = x \<longrightarrow> \<not> enabled b"
    using updateClock_alarms_cases [of e now s]
  proof (elim disjE exE conjE)
    assume "alarms (fst (updateClock e now s)) = alarms s"
    then show ?thesis using assms(1) by simp
  next
    fix a j
    assume "alarms (fst (updateClock e now s)) = (alarms s)[j := a\<lparr>enabled := False\<rparr>]"
    then show ?thesis using disabled_update [OF assms(1), of "a\<lparr>enabled := False\<rparr>" j] by simp
  qed
  then show ?thesis using f Tick by simp
next
  case (SwMessage m)
  then show ?thesis using assms(1) by (simp add: onSwMessage_frame)
next
  case Dismiss
  then show ?thesis using assms(1) by (simp add: dismissAlarm_frame)
next
  case AudioEnded
  then show ?thesis using assms(1) by (simp add: dismissAlarm_frame)
next
  case (ToggleAlarm i checked)
  have u: "alarms (fst (toggleAlarm e i checked s)) =
      (alarms s)[i := (alarms s ! i)\<lparr>enabled := checked\<rparr>]"
    unfolding toggleAlarm_def by (simp add: saveAlarms_frame)
  have "\<forall>b \<in> set (alarms (fst (toggleAlarm e i checked s))). alarm_id b = x \<longrightarrow> \<not> enabled b"
  proof (cases "i < length (alarms s)")
    case True
    then have "\<not> checked \<or> alarm_id (alarms s ! i) \<noteq> x"
      using assms(2) ToggleAlarm by (simp add: enables_def)
    then have "\<not> enabled ((alarms s ! i)\<lparr>enabled := checked\<rparr>) \<or>
        alarm_id ((alarms s ! i)\<lparr>enabled := checked\<rparr>) \<noteq> x" by auto
    from disabled_update [OF assms(1) this, of i] show ?thesis unfolding u .
  next
    case False
    then have "(alarms s)[i := (alarms s ! i)\<lparr>enabled := checked\<rparr>] = alarms s"
      by (simp add: list_update_beyond)
    then show ?thesis using assms(1) unfolding u by simp
  qed
  then show ?thesis using ToggleAlarm by simp
next
  case (DeleteAlarm i)
  have "alarms (fst (deleteAlarm e i s)) = filter (\<lambda>a. alarm_id a \<noteq> i) (alarms s)"
    unfolding deleteAlarm_def Let_def by (simp add: saveAlarms_frame)
  then show ?thesis using assms(1) DeleteAlarm by simp
next
  case (SaveAlarm i d)
  let ?data = "d\<lparr>alarm_id := savedId i d, enabled := True, audioDataUrl := None\<rparr>"
  have n: "alarm_id ?data \<noteq> x" using assms(2) SaveAlarm by (simp add: enables_def)
  have "\<forall>b \<in> set (alarms (fst (saveAlarm e i d s))). alarm_id b = x \<longrightarrow> \<not> enabled b"
    using saveAlarm_alarms [of e i d s]
  proof (elim disjE exE)
    assume "alarms (fst (saveAlarm e i d s)) = alarms s @ [?data]"
    then show ?thesis using assms(1) n by auto
  next
    fix j assume "alarms (fst (saveAlarm e i d s)) = (alarms s)[j := ?data]"
    then show ?thesis using disabled_update [OF assms(1), of ?data j] n by simp
  qed
  then show ?thesis using SaveAlarm by simp
qed

lemma run_keeps_disabled:
  "\<forall>b \<in> set (alarms s). alarm_id b = x \<longrightarrow> \<not> enabled b \<Longrightarrow>
   never_enables x e evs s \<Longrightarrow>
   \<forall>b \<in> set (tickFired (fg_trace e evs s)). alarm_id b \<noteq> x"
proof (induction evs arbitrary: s)
  case Nil
  show ?case by simp
next
  case (Cons ev evs)
  have ne: "\<not> enables x s ev" using Cons.prems(2) by simp
  from step_keeps_disabled [OF Cons.prems(1) ne, of e]
  have st: "\<forall>b \<in> set (alarms (fst (fg_step e ev s))). alarm_id b = x \<longrightarrow> \<not> enabled b"
    and f: "\<forall>b \<in> set (tickFired [(ev, snd (fg_step e ev s))]). alarm_id b \<noteq> x"
    by blast+
  have "\<forall>b \<in> set (tickFired (fg_trace e evs (fst (fg_step e ev s)))). alarm_id b \<noteq> x"
    using Cons.IH [OF st] Cons.prems(2) by simp
  then show ?case using f unfolding tickFired_trace_Cons by auto
qed

lemma distinct_update_disabled:
  assumes "distinct (map alarm_id xs)" "j < length xs" "alarm_id y = alarm_id (xs ! j)"
    "\<not> enabled y"
  shows "\<forall>b \<in> set (xs[j := y]). alarm_id b = alarm_id y \<longrightarrow> \<not> enabled b"
proof (intro ballI impI)
  fix b assume b: "b \<in> set (xs[j := y])" and i: "alarm_id b = alarm_id y"
  from b obtain k where k: "k < length xs" "b = xs[j := y] ! k"
    unfolding in_set_conv_nth by auto
  show "\<not> enabled b"
  proof (cases "k = j")
    case True
    then show ?thesis using k assms(2,4) by simp
  next
    case False
    then have "b = xs ! k" using k by simp
    then have "map alarm_id xs ! k = map alarm_id xs ! j" using i assms(2,3) k by simp
    moreover have "k < length (map alarm_id xs)" "j < length (map alarm_id xs)"
      using k(1) assms(2) by simp_all
    ultimately have "k = j" using assms(1) nth_eq_iff_index_eq by blast
    then show ?thesis using False by simp
  qed
qed

lemma saveAlarms_result:
  "storage (fst (saveAlarms e z)) =
     (if setItemOk e (alarms z) then Some (alarms z)
      else if setItemOk e (map stripAudio (alarms z)) then Some (map stripAudio (alarms z))
      else storage z)"
  "snd (saveAlarms e z) =
     (if setItemOk e (alarms z) then
        (if swController e then [PostMessage (SYNC_ALARMS (map slim (alarms z)))] else [])
      else if setItemOk e (map stripAudio (alarms z)) then [ShowToast]
      else [])"
  unfolding saveAlarms_def syncAlarmsToSW_def Let_def by simp_all

lemma rollover_storage: "storage (rollover m s) = storage s"
  unfolding rollover_def by simp

lemma fireDue_one_shot:
  assumes "\<not> hasDays a"
  shows "snd (fireDue e m j a s) =
           FireAlarm a # snd (saveAlarms e
             ((fireAlarm e a (s\<lparr>firedKeys := firedKeys s @ [firedKey a m]\<rparr>))
               \<lparr>alarms := (alarms s)[j := a\<lparr>enabled := False\<rparr>]\<rparr>)) @ [RenderAlarms]"
    "storage (fst (fireDue e m j a s)) =
           storage (fst (saveAlarms e
             ((fireAlarm e a (s\<lparr>firedKeys := firedKeys s @ [firedKey a m]\<rparr>))
               \<lparr>alarms := (alarms s)[j := a\<lparr>enabled := False\<rparr>]\<rparr>)))"
  using assms unfolding fireDue_def Let_def by (simp_all add: fireAlarm_frame)

section \<open>Ringing and dismissal\<close>

lemma stopCurrentAudio_silent:
  "activeAudioEl (stopCurrentAudio s) = None" "activeObjectUrl (stopCurrentAudio s) = None"
  "beepCtx (stopCurrentAudio s) = False" "beepInterval (stopCurrentAudio s) = False"
  unfolding stopCurrentAudio_def stopBeep_def by simp_all

lemma dismissAlarm_effect:
  "overlayHidden (dismissAlarm s)" "currentRinging (dismissAlarm s) = None"
  "sounding (dismissAlarm s) = Silence" "activeAudioEl (dismissAlarm s) = None"
  "\<not> beepInterval (dismissAlarm s)" "\<not> beepCtx (dismissAlarm s)"
  unfolding dismissAlarm_def sounding_def stopCurrentAudio_def stopBeep_def by simp_all

lemma step_clears_ringing:
  assumes "currentRinging s \<noteq> None" "currentRinging (fst (fg_step e ev s)) = None"
  shows "dismisses ev \<and> fst (fg_step e ev s) = dismissAlarm s"
proof (cases ev)
  case (Tick now)
  have "currentRinging (fst (updateClock e now s)) = currentRinging s"
    using updateClock_ringing [OF assms(1), of e now] by (simp add: rollover_frame)
  then show ?thesis using assms Tick by simp
next
  case (SwMessage m)
  show ?thesis
  proof (cases m)
    case (ALARM_ACTION action)
    have "action = ''dismiss'' \<or> action = ''snooze''"
      using assms SwMessage ALARM_ACTION by (auto simp: onSwMessage_def Let_def split: if_splits)
    then show ?thesis using SwMessage ALARM_ACTION
      by (auto simp: onSwMessage_def dismisses_def Let_def)
  qed (use assms SwMessage in \<open>auto simp: onSwMessage_def\<close>)
next
  case Dismiss
  then show ?thesis by (simp add: dismisses_def)
next
  case AudioEnded
  then show ?thesis using assms(1) by (simp add: dismisses_def)
next
  case (ToggleAlarm i c)
  then show ?thesis using assms by (simp add: toggleAlarm_frame)
next
  case (DeleteAlarm i)
  then show ?thesis using assms by (simp add: deleteAlarm_frame)
next
  case (SaveAlarm i d)
  then show ?thesis using assms by (simp add: saveAlarm_frame)
qed

lemma fireDue_overlay: "\<not> overlayHidden (fst (fireDue e m i a s))"
  unfolding fireDue_def Let_def by (simp add: saveAlarms_frame fireAlarm_ringing)

lemma step_hides_overlay:
  assumes "\<not> overlayHidden s" "overlayHidden (fst (fg_step e ev s))"
  shows "fst (fg_step e ev s) = dismissAlarm s"
proof (cases ev)
  case (Tick now)
  have "\<not> overlayHidden (fst (updateClock e now s))"
  proof -
    let ?m = "minuteOf now" and ?r = "rollover (minuteOf now) s"
    have r: "\<not> overlayHidden ?r" using assms(1) unfolding rollover_def by simp
    from updateClock_cases [of e now s] show ?thesis
    proof
      assume "updateClock e now s = (?r, [])"
      then show ?thesis using r by simp
    next
      assume u: "updateClock e now s = tickLoop e ?m (day now) 0 (alarms s) ?r"
      show ?thesis
      proof (cases "find (spec_due ?m (day now) (firedKeys ?r)) (alarms s)")
        case None
        from tickLoop_find(1) [OF None] show ?thesis unfolding u using r by simp
      next
        case (Some a)
        from tickLoop_find(2) [OF Some, of e 0] show ?thesis unfolding u
          by (auto simp: fireDue_overlay)
      qed
    qed
  qed
  then show ?thesis using assms Tick by simp
next
  case (SwMessage m)
  show ?thesis
  proof (cases m)
    case (ALARM_ACTION action)
    then show ?thesis using assms SwMessage
      by (auto simp: onSwMessage_def Let_def dismissAlarm_def stopCurrentAudio_def stopBeep_def
          split: if_splits)
  qed (use assms SwMessage in \<open>auto simp: onSwMessage_def fireAlarm_ringing\<close>)
next
  case Dismiss
  then show ?thesis by simp
next
  case AudioEnded
  then show ?thesis using assms by (auto split: if_splits)
next
  case (ToggleAlarm i c)
  then show ?thesis using assms by (simp add: toggleAlarm_frame)
next
  case (DeleteAlarm i)
  then show ?thesis using assms by (simp add: deleteAlarm_frame)
next
  case (SaveAlarm i d)
  then show ?thesis using assms by (simp add: saveAlarm_frame)
qed

section \<open>The ringing sequence\<close>

lemma fullAlarm_frame:
  "fullAlarm a (stopCurrentAudio s) = fullAlarm a s"
  "fullAlarm a (showWebNotification e a' s) = fullAlarm a s"
  "fullAlarm a (s\<lparr>currentRinging := r, overlayHidden := h\<rparr>) = fullAlarm a s"
  unfolding fullAlarm_def by (simp_all add: stopCurrentAudio_frame showWebNotification_frame)

lemma sounding_beep:
  "audioContext e = CtxOk \<Longrightarrow> activeAudioEl s = None \<Longrightarrow> sounding (playBeepFallback e s) = Beep"
  unfolding sounding_def playBeepFallback_def by simp

lemma sounding_startAudio:
  assumes "supported e"
  shows "sounding (startAudio e u s) =
       (if starts e u then (case u of DataUrl d \<Rightarrow> InlineAudio d | ObjectUrl b \<Rightarrow> BlobAudio b)
        else Beep)"
proof (cases "play e u")
  case (PlayUndefined started)
  then have "started" using assms unfolding supported_def by (cases started) auto
  then show ?thesis using PlayUndefined
    unfolding startAudio_def starts_def sounding_def by (simp split: audio_src.split)
next
  case PlayFulfilled
  then show ?thesis
    unfolding startAudio_def starts_def sounding_def by (simp split: audio_src.split)
next
  case PlayRejected
  then show ?thesis using assms
    unfolding supported_def startAudio_def starts_def sounding_def playBeepFallback_def
    by simp
qed

lemma fireAlarm_unfold:
  "fireAlarm e a s =
     (let s3 = stopCurrentAudio (showWebNotification e a
                 (s\<lparr>currentRinging := Some a, overlayHidden := False\<rparr>));
          full = fullAlarm a s
      in if truthy (audioDataUrl full) then
           startAudio e (DataUrl (the (audioDataUrl full))) s3
         else if truthy (audioKey full) then
           (case getAudioFromDB e (the (audioKey full)) of
              DbError \<Rightarrow> playBeepFallback e s3
            | DbResult None \<Rightarrow> playBeepFallback e s3
            | DbResult (Some blob) \<Rightarrow>
                startAudio e (ObjectUrl blob) (s3\<lparr>activeObjectUrl := Some blob\<rparr>))
         else playBeepFallback e s3)"
  unfolding fireAlarm_def Let_def by (simp add: fullAlarm_frame)

lemma sounding_fireAlarm:
  assumes "supported e"
  shows "sounding (fireAlarm e a s) =
     (if truthy (audioDataUrl (fullAlarm a s)) then
        (if starts e (DataUrl (the (audioDataUrl (fullAlarm a s))))
         then InlineAudio (the (audioDataUrl (fullAlarm a s))) else Beep)
      else spec_blob_stage e (fullAlarm a s))"
proof -
  have c: "audioContext e = CtxOk" using assms unfolding supported_def by simp
  let ?s3 = "stopCurrentAudio (showWebNotification e a
                 (s\<lparr>currentRinging := Some a, overlayHidden := False\<rparr>))"
  have n: "activeAudioEl ?s3 = None" by (rule stopCurrentAudio_silent)
  show ?thesis
    unfolding fireAlarm_unfold Let_def spec_blob_stage_def
    using sounding_startAudio [OF assms] sounding_beep [OF c n]
    by (auto split: db_result.split option.split)
qed

lemma sounding_cascade:
  assumes "supported e" "oneSource (fullAlarm a s)"
  shows "sounding (fireAlarm e a s) = spec_resolve e (fullAlarm a s)"
  using assms(2)
  unfolding sounding_fireAlarm [OF assms(1)] spec_resolve_def spec_blob_stage_def oneSource_def
  by (auto split: if_splits)

lemma sounding_not_silent: "supported e \<Longrightarrow> sounding (fireAlarm e a s) \<noteq> Silence"
  unfolding sounding_fireAlarm spec_blob_stage_def
  by (simp split: db_result.split option.split)

lemma oneSource_fullAlarm:
  "list_all oneSource (alarms s) \<Longrightarrow> oneSource a \<Longrightarrow> oneSource (fullAlarm a s)"
  unfolding fullAlarm_def
  by (auto simp: list_all_iff find_Some_iff split: option.split)

lemma oneSource_enabled: "oneSource (a\<lparr>enabled := b\<rparr>) = oneSource a"
  unfolding oneSource_def by simp

lemma list_all_update:
  assumes "list_all P xs" "P y"
  shows "list_all P (xs[j := y])"
  using assms set_update_subset_insert [of xs j y] unfolding list_all_iff by auto

lemma fg_step_oneSource:
  assumes "list_all oneSource (alarms s)"
  shows "list_all oneSource (alarms (fst (fg_step e ev s)))"
proof (cases ev)
  case (Tick now)
  from updateClock_alarms_cases [of e now s]
  have "list_all oneSource (alarms (fst (updateClock e now s)))"
  proof (elim disjE exE conjE)
    assume "alarms (fst (updateClock e now s)) = alarms s"
    then show ?thesis using assms by simp
  next
    fix a j
    assume f: "fired (snd (updateClock e now s)) = [a]"
      and u: "alarms (fst (updateClock e now s)) = (alarms s)[j := a\<lparr>enabled := False\<rparr>]"
    have "a \<in> set (alarms s)" using updateClock_fired_cases [of e now s] f by auto
    then have "oneSource (a\<lparr>enabled := False\<rparr>)"
      using assms unfolding oneSource_enabled list_all_iff by simp
    from list_all_update [OF assms this] show ?thesis unfolding u .
  qed
  then show ?thesis using Tick by simp
next
  case (SwMessage m)
  then show ?thesis using assms by (simp add: onSwMessage_frame)
next
  case Dismiss
  then show ?thesis using assms by (simp add: dismissAlarm_frame)
next
  case AudioEnded
  then show ?thesis using assms by (simp add: dismissAlarm_frame)
next
  case (ToggleAlarm i checked)
  have u: "alarms (fst (toggleAlarm e i checked s)) =
      (alarms s)[i := (alarms s ! i)\<lparr>enabled := checked\<rparr>]"
    unfolding toggleAlarm_def by (simp add: saveAlarms_frame)
  have "list_all oneSource (alarms (fst (toggleAlarm e i checked s)))"
  proof (cases "i < length (alarms s)")
    case True
    then have "oneSource ((alarms s ! i)\<lparr>enabled := checked\<rparr>)"
      using assms unfolding oneSource_enabled list_all_iff by simp
    from list_all_update [OF assms this] show ?thesis unfolding u .
  next
    case False
    then have "(alarms s)[i := (alarms s ! i)\<lparr>enabled := checked\<rparr>] = alarms s"
      by (simp add: list_update_beyond)
    then show ?thesis using assms unfolding u by simp
  qed
  then show ?thesis using ToggleAlarm by simp
next
  case (DeleteAlarm i)
  have "alarms (fst (deleteAlarm e i s)) = filter (\<lambda>a. alarm_id a \<noteq> i) (alarms s)"
    unfolding deleteAlarm_def Let_def by (simp add: saveAlarms_frame)
  then show ?thesis using assms DeleteAlarm by (simp add: list_all_iff)
next
  case (SaveAlarm i d)
  let ?data = "d\<lparr>alarm_id := savedId i d, enabled := True, audioDataUrl := None\<rparr>"
  have o: "oneSource ?data" unfolding oneSource_def by simp
  have "list_all oneSource (alarms (fst (saveAlarm e i d s)))"
    using saveAlarm_alarms [of e i d s]
  proof (elim disjE exE)
    assume "alarms (fst (saveAlarm e i d s)) = alarms s @ [?data]"
    then show ?thesis using assms o by simp
  next
    fix j assume u: "alarms (fst (saveAlarm e i d s)) = (alarms s)[j := ?data]"
    from list_all_update [OF assms o] show ?thesis unfolding u .
  qed
  then show ?thesis using SaveAlarm by simp
qed

lemma fg_exec_oneSource:
  "list_all oneSource (alarms s) \<Longrightarrow> list_all oneSource (alarms (fg_exec e evs s))"
  by (induction evs arbitrary: s) (simp_all add: fg_step_oneSource)

lemma ex_env_rejecting_supported: "supported ex_env_rejecting"
  unfolding supported_def ex_env_rejecting_def by (auto split: audio_src.split)

section \<open>Loading\<close>

lemma loadAlarms_total: "\<exists>xs. loadAlarms getItem JSON_parse = Inr xs"
  unfolding loadAlarms_def by (cases "loadAlarms_try getItem JSON_parse") simp_all

section \<open>The claims\<close>

text \<open>
  C1. On a tick that passes the window gate (and, in the page, the reentrancy gate), the
  scheduler fires exactly the first alarm in stored order that is enabled, whose time is
  the current minute string, whose days are empty or contain the current weekday and
  whose key for this minute is not recorded; it appends that key to the recorded keys
  and fires no other alarm. So at most one alarm fires per tick, in the page and in the
  worker alike.
\<close>

theorem first_due_alarm_fires:
  "(seconds now \<le> 4 \<and> currentRinging s = None \<longrightarrow>
      fired (snd (updateClock e now s)) =
        (case find (spec_due (minuteOf now) (day now) (firedKeys s)) (alarms s) of
           None \<Rightarrow> [] | Some a \<Rightarrow> [a]) \<and>
      firedKeys (fst (updateClock e now s)) =
        firedKeys (rollover (minuteOf now) s) @
          map (\<lambda>a. firedKey a (minuteOf now)) (fired (snd (updateClock e now s))) \<and>
      length (fired (snd (updateClock e now s))) \<le> 1) \<and>
   (seconds now \<le> 30 \<longrightarrow>
      notified (snd (checkSwAlarms now t)) =
        (case find (spec_due (minuteOf now) (day now) (swFiredKeys t)) (swAlarms t) of
           None \<Rightarrow> [] | Some a \<Rightarrow> [a]) \<and>
      swFiredKeys (fst (checkSwAlarms now t)) =
        swFiredKeys (swRollover (minuteOf now) t) @
          map (\<lambda>a. firedKey a (minuteOf now)) (notified (snd (checkSwAlarms now t))) \<and>
      length (notified (snd (checkSwAlarms now t))) \<le> 1)"
proof (intro conjI impI)
  assume h: "seconds now \<le> 4 \<and> currentRinging s = None"
  let ?m = "minuteOf now"
  have u: "updateClock e now s = tickLoop e ?m (day now) 0 (alarms s) (rollover ?m s)"
    using h unfolding updateClock_def tickAlarms_def minuteOf_def Let_def
    by (simp add: rollover_frame)
  show f: "fired (snd (updateClock e now s)) =
        (case find (spec_due ?m (day now) (firedKeys s)) (alarms s) of
           None \<Rightarrow> [] | Some a \<Rightarrow> [a])"
    unfolding u tickLoop_fired spec_due_rollover ..
  show "firedKeys (fst (updateClock e now s)) =
        firedKeys (rollover ?m s) @ map (\<lambda>a. firedKey a ?m) (fired (snd (updateClock e now s)))"
    unfolding u by (rule tickLoop_keys)
  show "length (fired (snd (updateClock e now s))) \<le> 1"
    unfolding f by (simp split: option.split)
next
  assume h: "seconds now \<le> 30"
  let ?m = "minuteOf now"
  have u: "checkSwAlarms now t = swLoop ?m (day now) (swAlarms t) (swRollover ?m t)"
    using h unfolding checkSwAlarms_def minuteOf_def Let_def
    by (simp add: swRollover_alarms)
  show f: "notified (snd (checkSwAlarms now t)) =
        (case find (spec_due ?m (day now) (swFiredKeys t)) (swAlarms t) of
           None \<Rightarrow> [] | Some a \<Rightarrow> [a])"
  proof (cases "find (spec_due ?m (day now) (swFiredKeys t)) (swAlarms t)")
    case None
    then have "find (spec_due ?m (day now) (swFiredKeys (swRollover ?m t))) (swAlarms t) = None"
      by (simp add: spec_due_swRollover)
    from swLoop_find(1) [OF this] show ?thesis unfolding u using None by simp
  next
    case (Some a)
    then have "find (spec_due ?m (day now) (swFiredKeys (swRollover ?m t))) (swAlarms t) = Some a"
      by (simp add: spec_due_swRollover)
    from swLoop_find(2) [OF this] show ?thesis unfolding u using Some by simp
  qed
  show "swFiredKeys (fst (checkSwAlarms now t)) =
        swFiredKeys (swRollover ?m t) @
          map (\<lambda>a. firedKey a ?m) (notified (snd (checkSwAlarms now t)))"
  proof (cases "find (spec_due ?m (day now) (swFiredKeys (swRollover ?m t))) (swAlarms t)")
    case None
    from swLoop_find(1) [OF this] show ?thesis unfolding u by simp
  next
    case (Some a)
    from swLoop_find(2) [OF this] show ?thesis unfolding u by simp
  qed
  show "length (notified (snd (checkSwAlarms now t))) \<le> 1"
    unfolding f by (simp split: option.split)
qed

theorem first_due_alarm_fires_witness:
  "seconds (ex_clock 7 0 2 2) \<le> 4 \<and>
   currentRinging (fg_init [ex_alarm ''a'' ''07:00'' [], ex_alarm ''b'' ''07:00'' []]) = None \<and>
   fired (snd (updateClock ex_env (ex_clock 7 0 2 2)
     (fg_init [ex_alarm ''a'' ''07:00'' [], ex_alarm ''b'' ''07:00'' []]))) = [ex_alarm ''a'' ''07:00'' []] \<and>
   notified (snd (checkSwAlarms (ex_clock 7 0 2 2)
     (sw_init\<lparr>swAlarms := [ex_alarm ''a'' ''07:00'' [], ex_alarm ''b'' ''07:00'' []]\<rparr>))) = [ex_alarm ''a'' ''07:00'' []]"
  using first_due_alarm_fires [of "ex_clock 7 0 2 2"
      "fg_init [ex_alarm ''a'' ''07:00'' [], ex_alarm ''b'' ''07:00'' []]" ex_env
      "sw_init\<lparr>swAlarms := [ex_alarm ''a'' ''07:00'' [], ex_alarm ''b'' ''07:00'' []]\<rparr>"]
  by (simp add: minuteOf_0700 spec_due_def fg_init_def sw_init_def ex_alarm_def, simp add: ex_clock_def)

text \<open>
  C2. Along any sequence of events of one scheduler in which every tick observes the same
  minute string \<open>M\<close>, the scheduler fires an alarm of a given id at most once: the key
  recorded at the first fire blocks every later tick of that minute. This holds for
  every alarm, so in particular for the recurring ones (non-empty days), in the page
  and in the worker.
\<close>

theorem fires_once_per_minute:
  "((\<forall>now. Tick now \<in> set evs \<longrightarrow> minuteOf now = M) \<longrightarrow>
      length (filter (\<lambda>a. alarm_id a = i) (tickFired (fg_trace e evs s))) \<le> 1) \<and>
   ((\<forall>ev \<in> set sevs. minuteOf (sw_clock ev) = M) \<longrightarrow>
      length (filter (\<lambda>a. alarm_id a = i) (notified (sw_trace sevs t))) \<le> 1)"
  using fires_once_per_minute_fg [of evs M i e s] fires_once_per_minute_sw [of sevs M i t]
  by blast

theorem fires_once_per_minute_witness:
  "length (filter (\<lambda>a. alarm_id a = ''a'')
     (tickFired (fg_trace ex_env [Tick (ex_clock 7 0 0 2), Dismiss, Tick (ex_clock 7 0 1 2)]
        (fg_init [ex_alarm ''a'' ''07:00'' [2]])))) \<le> 1 \<and>
   length (filter (\<lambda>a. alarm_id a = ''a'')
     (notified (sw_trace [SwInterval (ex_clock 7 0 0 2), SwInterval (ex_clock 7 0 30 2)]
        (sw_init\<lparr>swAlarms := [ex_alarm ''a'' ''07:00'' [2]]\<rparr>)))) \<le> 1"
proof -
  have h1: "\<forall>now. Tick now \<in> set [Tick (ex_clock 7 0 0 2), Dismiss, Tick (ex_clock 7 0 1 2)]
      \<longrightarrow> minuteOf now = ''07:00''"
    by (auto simp: minuteOf_def ex_clock_def pad_def padStart_def String_nat.simps digit_def)
  have h2: "\<forall>ev \<in> set [SwInterval (ex_clock 7 0 0 2), SwInterval (ex_clock 7 0 30 2)].
      minuteOf (sw_clock ev) = ''07:00''"
    by (simp add: sw_clock_def minuteOf_def ex_clock_def pad_def padStart_def
        String_nat.simps digit_def)
  show ?thesis
    using h1 h2 fires_once_per_minute [of
        "[Tick (ex_clock 7 0 0 2), Dismiss, Tick (ex_clock 7 0 1 2)]" "''07:00''" "''a''" ex_env
        "fg_init [ex_alarm ''a'' ''07:00'' [2]]"
        "[SwInterval (ex_clock 7 0 0 2), SwInterval (ex_clock 7 0 30 2)]"
        "sw_init\<lparr>swAlarms := [ex_alarm ''a'' ''07:00'' [2]]\<rparr>"]
    by blast
qed


text \<open>
  C3. In every state the page or the worker reaches from its start, each recorded key
  ends in the separator and the remembered minute. A key present before a tick is still
  present after it exactly when the tick observes the remembered minute or the key has
  the observed minute as its suffix; no event other than a tick changes the keys. So
  after a tick of a real clock no key of any other minute is left.
\<close>

theorem keys_carry_last_minute:
  "keys_inv (lastCheckedMinute (fg_exec e evs (fg_init as))) (firedKeys (fg_exec e evs (fg_init as))) \<and>
   keys_inv (swLastMinute (sw_exec sevs sw_init)) (swFiredKeys (sw_exec sevs sw_init)) \<and>
   (\<forall>k \<in> set (firedKeys s).
      k \<in> set (firedKeys (fst (updateClock e now s))) \<longleftrightarrow>
        (lastCheckedMinute s = Some (minuteOf now) \<or> endsWith k (''|'' @ minuteOf now))) \<and>
   (\<forall>k \<in> set (swFiredKeys t).
      k \<in> set (swFiredKeys (fst (checkSwAlarms now t))) \<longleftrightarrow>
        (swLastMinute t = Some (minuteOf now) \<or> endsWith k (''|'' @ minuteOf now))) \<and>
   ((\<forall>c. ev \<noteq> Tick c) \<longrightarrow> firedKeys (fst (fg_step e ev s)) = firedKeys s) \<and>
   ((\<forall>xs. m \<noteq> SYNC_ALARMS xs) \<longrightarrow>
      swFiredKeys (fst (sw_step (SwOnMessage m now) t)) = swFiredKeys t) \<and>
   (valid_clock now \<and> valid_clock c \<and> minuteOf c \<noteq> minuteOf now \<longrightarrow>
      firedKey a (minuteOf c) \<notin>
        set (firedKeys (fst (updateClock e now (fg_exec e evs (fg_init as))))) \<and>
      firedKey a (minuteOf c) \<notin>
        set (swFiredKeys (fst (checkSwAlarms now (sw_exec sevs sw_init)))))"
proof (intro conjI impI ballI)
  show i1: "keys_inv (lastCheckedMinute (fg_exec e evs (fg_init as)))
          (firedKeys (fg_exec e evs (fg_init as)))"
    by (rule fg_exec_inv) (rule init_inv)
  show i2: "keys_inv (swLastMinute (sw_exec sevs sw_init)) (swFiredKeys (sw_exec sevs sw_init))"
    by (rule sw_exec_inv) (rule init_inv)
  assume v: "valid_clock now \<and> valid_clock c \<and> minuteOf c \<noteq> minuteOf now"
  then have len: "length (minuteOf c) = length (minuteOf now)"
    unfolding valid_clock_def by (simp add: length_minuteOf)
  have "keys_inv (Some (minuteOf now))
          (firedKeys (fst (updateClock e now (fg_exec e evs (fg_init as)))))"
    using updateClock_inv [OF i1, of e now] unfolding updateClock_last .
  from other_minute_absent [OF this len] v
  show "firedKey a (minuteOf c) \<notin>
        set (firedKeys (fst (updateClock e now (fg_exec e evs (fg_init as)))))" by simp
  have "keys_inv (Some (minuteOf now))
          (swFiredKeys (fst (checkSwAlarms now (sw_exec sevs sw_init))))"
    using checkSwAlarms_inv [OF i2, of now] unfolding checkSwAlarms_frame .
  from other_minute_absent [OF this len] v
  show "firedKey a (minuteOf c) \<notin>
        set (swFiredKeys (fst (checkSwAlarms now (sw_exec sevs sw_init))))" by simp
next
  fix k assume "k \<in> set (firedKeys s)"
  then show "k \<in> set (firedKeys (fst (updateClock e now s))) \<longleftrightarrow>
        (lastCheckedMinute s = Some (minuteOf now) \<or> endsWith k (''|'' @ minuteOf now))"
    by (rule survives_tick)
next
  fix k assume "k \<in> set (swFiredKeys t)"
  then show "k \<in> set (swFiredKeys (fst (checkSwAlarms now t))) \<longleftrightarrow>
        (swLastMinute t = Some (minuteOf now) \<or> endsWith k (''|'' @ minuteOf now))"
    by (rule survives_sw_tick)
next
  assume "\<forall>c. ev \<noteq> Tick c"
  then have "\<And>c. ev \<noteq> Tick c" by blast
  from fg_step_keys_frame [OF this] show "firedKeys (fst (fg_step e ev s)) = firedKeys s"
    by simp
next
  assume "\<forall>xs. m \<noteq> SYNC_ALARMS xs"
  then show "swFiredKeys (fst (sw_step (SwOnMessage m now) t)) = swFiredKeys t"
    by (cases m) simp_all
qed



theorem keys_carry_last_minute_witness:
  "''a|07:00'' \<in> set (firedKeys ex_fg_0700) \<and>
   ''a|07:00'' \<notin> set (firedKeys (fst (updateClock ex_env (ex_clock 7 1 0 2) ex_fg_0700))) \<and>
   ''a|07:00'' \<in> set (swFiredKeys ex_sw_0700) \<and>
   ''a|07:00'' \<notin> set (swFiredKeys (fst (checkSwAlarms (ex_clock 7 1 0 2) ex_sw_0700))) \<and>
   firedKeys (fst (fg_step ex_env Dismiss ex_fg_0700)) = firedKeys ex_fg_0700 \<and>
   swFiredKeys (fst (sw_step (SwOnMessage OTHER_MESSAGE (ex_clock 7 1 0 2)) ex_sw_0700))
     = swFiredKeys ex_sw_0700 \<and>
   valid_clock (ex_clock 7 1 0 2) \<and> valid_clock (ex_clock 7 0 0 2) \<and>
   minuteOf (ex_clock 7 0 0 2) \<noteq> minuteOf (ex_clock 7 1 0 2) \<and>
   firedKey (ex_alarm ''a'' ''07:00'' [2]) (minuteOf (ex_clock 7 0 0 2)) \<notin>
     set (firedKeys (fst (updateClock ex_env (ex_clock 7 1 0 2)
       (fg_exec ex_env [Tick (ex_clock 7 0 0 2)] (fg_init [ex_alarm ''a'' ''07:00'' [2]])))))"
proof -
  have m: "minuteOf (ex_clock 7 1 0 2) = ''07:01''" "minuteOf (ex_clock 7 0 0 2) = ''07:00''"
    by (simp_all add: minuteOf_def ex_clock_def pad_def padStart_def String_nat.simps digit_def)
  have v: "valid_clock (ex_clock 7 1 0 2) \<and> valid_clock (ex_clock 7 0 0 2) \<and>
     minuteOf (ex_clock 7 0 0 2) \<noteq> minuteOf (ex_clock 7 1 0 2)"
    unfolding m by (simp add: valid_clock_def ex_clock_def)
  have k: "firedKeys ex_fg_0700 = [''a|07:00'']" "swFiredKeys ex_sw_0700 = [''a|07:00'']"
    "lastCheckedMinute ex_fg_0700 = Some ''07:00''" "swLastMinute ex_sw_0700 = Some ''07:00''"
    by (simp_all add: ex_fg_0700_def ex_sw_0700_def)
  have e: "\<not> endsWith ''a|07:00'' (''|'' @ ''07:01'')" by (simp add: endsWith_def)
  show ?thesis
    using v k e keys_carry_last_minute [of ex_env "[Tick (ex_clock 7 0 0 2)]"
        "[ex_alarm ''a'' ''07:00'' [2]]" "[]" ex_fg_0700 "ex_clock 7 1 0 2" ex_sw_0700
        Dismiss OTHER_MESSAGE "ex_clock 7 0 0 2" "ex_alarm ''a'' ''07:00'' [2]"]
    unfolding m by simp
qed


text \<open>
  C4. A tick whose second is above the threshold (4 in the page, 30 in the worker) fires
  nothing and leaves the alarms alone. So when the page first observes a minute at
  second 5 or later and the seconds of its later ticks do not decrease, as within one
  minute, the scheduler fires no alarm in that minute, whatever else happens in between.
  A tick of the page at second 4 or earlier, with nothing ringing, fires the first due
  alarm.
\<close>

theorem window_gate:
  "(seconds now > 4 \<longrightarrow>
      snd (updateClock e now s) = [] \<and> alarms (fst (updateClock e now s)) = alarms s) \<and>
   (seconds now' > 30 \<longrightarrow>
      snd (checkSwAlarms now' t) = [] \<and> swAlarms (fst (checkSwAlarms now' t)) = swAlarms t) \<and>
   (seconds now > 4 \<and> sorted (map seconds (now # tickClocks evs)) \<longrightarrow>
      tickFired (fg_trace e (Tick now # evs) s) = []) \<and>
   ((\<forall>ev \<in> set sevs. seconds (sw_clock ev) > 30) \<longrightarrow> notified (sw_trace sevs t) = []) \<and>
   (seconds c \<le> 4 \<and> currentRinging s = None \<and>
    find (spec_due (minuteOf c) (day c) (firedKeys s)) (alarms s) = Some a \<longrightarrow>
      fired (snd (updateClock e c s)) = [a])"
proof (intro conjI impI)
  assume "seconds now > 4"
  then show "snd (updateClock e now s) = []" "alarms (fst (updateClock e now s)) = alarms s"
    by (simp_all add: updateClock_late rollover_frame)
next
  assume "seconds now' > 30"
  then show "snd (checkSwAlarms now' t) = []"
    "swAlarms (fst (checkSwAlarms now' t)) = swAlarms t"
    by (simp_all add: checkSwAlarms_late swRollover_alarms)
next
  assume "seconds now > 4 \<and> sorted (map seconds (now # tickClocks evs))"
  then show "tickFired (fg_trace e (Tick now # evs) s) = []"
    using late_first_tick [of now evs e s] by blast
next
  assume "\<forall>ev \<in> set sevs. seconds (sw_clock ev) > 30"
  then show "notified (sw_trace sevs t) = []" using late_sw_fires_nothing by blast
next
  assume h: "seconds c \<le> 4 \<and> currentRinging s = None \<and>
    find (spec_due (minuteOf c) (day c) (firedKeys s)) (alarms s) = Some a"
  then have "updateClock e c s =
     tickLoop e (minuteOf c) (day c) 0 (alarms s) (rollover (minuteOf c) s)"
    by (simp add: updateClock_open)
  then show "fired (snd (updateClock e c s)) = [a]"
    using h by (simp add: tickLoop_fired spec_due_rollover)
qed

theorem window_gate_witness:
  "seconds (ex_clock 8 30 7 1) > 4 \<and>
   snd (updateClock ex_env (ex_clock 8 30 7 1) (fg_init [ex_alarm ''a'' ''08:30'' []])) = [] \<and>
   seconds (ex_clock 8 30 31 1) > 30 \<and>
   snd (checkSwAlarms (ex_clock 8 30 31 1) (sw_init\<lparr>swAlarms := [ex_alarm ''a'' ''08:30'' []]\<rparr>)) = [] \<and>
   sorted (map seconds (ex_clock 8 30 7 1 # tickClocks [Tick (ex_clock 8 30 8 1), Dismiss,
     Tick (ex_clock 8 30 59 1)])) \<and>
   tickFired (fg_trace ex_env [Tick (ex_clock 8 30 7 1), Tick (ex_clock 8 30 8 1), Dismiss,
     Tick (ex_clock 8 30 59 1)] (fg_init [ex_alarm ''a'' ''08:30'' []])) = [] \<and>
   notified (sw_trace [SwInterval (ex_clock 8 30 31 1)]
     (sw_init\<lparr>swAlarms := [ex_alarm ''a'' ''08:30'' []]\<rparr>)) = [] \<and>
   seconds (ex_clock 8 30 2 1) \<le> 4 \<and>
   currentRinging (fg_init [ex_alarm ''a'' ''08:30'' []]) = None \<and>
   find (spec_due (minuteOf (ex_clock 8 30 2 1)) (day (ex_clock 8 30 2 1))
     (firedKeys (fg_init [ex_alarm ''a'' ''08:30'' []]))) (alarms (fg_init [ex_alarm ''a'' ''08:30'' []]))
     = Some (ex_alarm ''a'' ''08:30'' []) \<and>
   fired (snd (updateClock ex_env (ex_clock 8 30 2 1) (fg_init [ex_alarm ''a'' ''08:30'' []])))
     = [ex_alarm ''a'' ''08:30'' []]"
proof -
  have m: "minuteOf (ex_clock 8 30 2 1) = ''08:30''"
    by (simp add: minuteOf_def ex_clock_def pad_def padStart_def String_nat.simps digit_def)
  have h1: "seconds (ex_clock 8 30 7 1) > 4" "seconds (ex_clock 8 30 31 1) > 30"
    "sorted (map seconds (ex_clock 8 30 7 1 # tickClocks [Tick (ex_clock 8 30 8 1), Dismiss,
       Tick (ex_clock 8 30 59 1)]))"
    "\<forall>ev \<in> set [SwInterval (ex_clock 8 30 31 1)]. seconds (sw_clock ev) > 30"
    by (auto simp: ex_clock_def sw_clock_def)
  have h2: "seconds (ex_clock 8 30 2 1) \<le> 4 \<and>
     currentRinging (fg_init [ex_alarm ''a'' ''08:30'' []]) = None \<and>
     find (spec_due (minuteOf (ex_clock 8 30 2 1)) (day (ex_clock 8 30 2 1))
       (firedKeys (fg_init [ex_alarm ''a'' ''08:30'' []]))) (alarms (fg_init [ex_alarm ''a'' ''08:30'' []]))
       = Some (ex_alarm ''a'' ''08:30'' [])"
    unfolding m by (simp add: spec_due_def fg_init_def ex_alarm_def ex_clock_def)
  show ?thesis
    using h1 h2 window_gate [of "ex_clock 8 30 7 1" ex_env "fg_init [ex_alarm ''a'' ''08:30'' []]"
        "ex_clock 8 30 31 1" "sw_init\<lparr>swAlarms := [ex_alarm ''a'' ''08:30'' []]\<rparr>"
        "[Tick (ex_clock 8 30 8 1), Dismiss, Tick (ex_clock 8 30 59 1)]"
        "[SwInterval (ex_clock 8 30 31 1)]"
        "ex_clock 8 30 2 1" "ex_alarm ''a'' ''08:30'' []"]
    by blast
qed

text \<open>
  C5. When a tick of the page fires a one-shot alarm (days empty or absent) of a list
  with unique ids, the alarm's entry is replaced by a disabled copy and nothing else in
  the list changes. The tick then saves and renders: the new list is stored when the
  store accepts it (and then posted to the worker, if one controls the page), else the
  list stripped of inline audio is stored when the store accepts that, else the store
  stays as it was; rendering comes last. From then on no tick fires an alarm of that
  id, along any sequence of events that does not re-enable it: the toggle of an alarm
  of that id is not switched on and nothing is saved under that id (other alarms may
  be switched on, edited, added or deleted). A check of the worker never changes its
  alarm list.
\<close>

theorem one_shot_disabled_after_fire:
  "seconds now \<le> 4 \<Longrightarrow> currentRinging s = None \<Longrightarrow>
   find (spec_due (minuteOf now) (day now) (firedKeys s)) (alarms s) = Some a \<Longrightarrow>
   \<not> hasDays a \<Longrightarrow> distinct (map alarm_id (alarms s)) \<Longrightarrow>
     fired (snd (updateClock e now s)) = [a] \<and>
     (\<exists>j<length (alarms s). alarms s ! j = a \<and>
        alarms (fst (updateClock e now s)) = (alarms s)[j := a\<lparr>enabled := False\<rparr>]) \<and>
     (\<forall>b \<in> set (alarms (fst (updateClock e now s))). alarm_id b = alarm_id a \<longrightarrow> \<not> enabled b) \<and>
     storage (fst (updateClock e now s)) =
       (if setItemOk e (alarms (fst (updateClock e now s)))
        then Some (alarms (fst (updateClock e now s)))
        else if setItemOk e (map stripAudio (alarms (fst (updateClock e now s))))
        then Some (map stripAudio (alarms (fst (updateClock e now s))))
        else storage s) \<and>
     snd (updateClock e now s) =
       FireAlarm a #
       (if setItemOk e (alarms (fst (updateClock e now s))) then
          (if swController e
           then [PostMessage (SYNC_ALARMS (map slim (alarms (fst (updateClock e now s)))))]
           else [])
        else if setItemOk e (map stripAudio (alarms (fst (updateClock e now s))))
        then [ShowToast] else []) @ [RenderAlarms] \<and>
     (never_enables (alarm_id a) e evs (fst (updateClock e now s)) \<longrightarrow>
        (\<forall>b \<in> set (tickFired (fg_trace e evs (fst (updateClock e now s)))).
           alarm_id b \<noteq> alarm_id a)) \<and>
     swAlarms (fst (checkSwAlarms c t)) = swAlarms t"
proof -
  assume sec: "seconds now \<le> 4" and nr: "currentRinging s = None"
    and fnd: "find (spec_due (minuteOf now) (day now) (firedKeys s)) (alarms s) = Some a"
    and once: "\<not> hasDays a" and dist: "distinct (map alarm_id (alarms s))"
  let ?m = "minuteOf now" and ?r = "rollover (minuteOf now) s"
  let ?s' = "fst (updateClock e now s)" and ?fx = "snd (updateClock e now s)"
  have u: "updateClock e now s = tickLoop e ?m (day now) 0 (alarms s) ?r"
    using sec nr by (rule updateClock_open)
  have fnd': "find (spec_due ?m (day now) (firedKeys ?r)) (alarms s) = Some a"
    using fnd by (simp add: spec_due_rollover)
  from tickLoop_alarms_cases [OF fnd', of e] once obtain j where
    j: "j < length (alarms s)" "alarms s ! j = a"
      "alarms ?s' = (alarms s)[j := a\<lparr>enabled := False\<rparr>]"
      "updateClock e now s = fireDue e ?m j a ?r"
    unfolding u by (auto simp: rollover_frame)
  let ?z = "(fireAlarm e a (?r\<lparr>firedKeys := firedKeys ?r @ [firedKey a ?m]\<rparr>))
               \<lparr>alarms := (alarms ?r)[j := a\<lparr>enabled := False\<rparr>]\<rparr>"
  have z: "alarms ?z = alarms ?s'" using j(3) by (simp add: rollover_frame)
  have zs: "storage ?z = storage s" by (simp add: fireAlarm_frame rollover_storage)
  have fx: "?fx = FireAlarm a # snd (saveAlarms e ?z) @ [RenderAlarms]"
    and st: "storage ?s' = storage (fst (saveAlarms e ?z))"
    unfolding j(4) using fireDue_one_shot [OF once, of e ?m j ?r] by simp_all
  have dis: "\<forall>b \<in> set (alarms ?s'). alarm_id b = alarm_id a \<longrightarrow> \<not> enabled b"
    using distinct_update_disabled [OF dist j(1), of "a\<lparr>enabled := False\<rparr>"] j(2,3) by simp
  show ?thesis
  proof (intro conjI impI)
    show "fired ?fx = [a]" unfolding j(4) by (rule fireDue_fired)
    show "\<exists>j<length (alarms s). alarms s ! j = a \<and>
        alarms ?s' = (alarms s)[j := a\<lparr>enabled := False\<rparr>]"
      using j(1,2,3) by blast
    show "\<forall>b \<in> set (alarms ?s'). alarm_id b = alarm_id a \<longrightarrow> \<not> enabled b" by (rule dis)
    show "storage ?s' =
       (if setItemOk e (alarms ?s') then Some (alarms ?s')
        else if setItemOk e (map stripAudio (alarms ?s')) then Some (map stripAudio (alarms ?s'))
        else storage s)"
      unfolding st saveAlarms_result(1) z zs ..
    show "?fx = FireAlarm a #
       (if setItemOk e (alarms ?s') then
          (if swController e then [PostMessage (SYNC_ALARMS (map slim (alarms ?s')))] else [])
        else if setItemOk e (map stripAudio (alarms ?s')) then [ShowToast] else [])
       @ [RenderAlarms]"
      using fx unfolding saveAlarms_result(2) z .
    show "swAlarms (fst (checkSwAlarms c t)) = swAlarms t" by (rule checkSwAlarms_frame)
  next
    assume "never_enables (alarm_id a) e evs ?s'"
    from run_keeps_disabled [OF dis this]
    show "\<forall>b \<in> set (tickFired (fg_trace e evs ?s')). alarm_id b \<noteq> alarm_id a" .
  qed
qed

theorem one_shot_disabled_after_fire_witness:
  "seconds (ex_clock 9 15 3 2) \<le> 4 \<and>
   currentRinging (fg_init [ex_alarm ''a'' ''09:15'' [], ex_alarm ''b'' ''10:00'' [1]]) = None \<and>
   find (spec_due (minuteOf (ex_clock 9 15 3 2)) (day (ex_clock 9 15 3 2))
     (firedKeys (fg_init [ex_alarm ''a'' ''09:15'' [], ex_alarm ''b'' ''10:00'' [1]])))
     (alarms (fg_init [ex_alarm ''a'' ''09:15'' [], ex_alarm ''b'' ''10:00'' [1]]))
     = Some (ex_alarm ''a'' ''09:15'' []) \<and>
   \<not> hasDays (ex_alarm ''a'' ''09:15'' []) \<and>
   distinct (map alarm_id
     (alarms (fg_init [ex_alarm ''a'' ''09:15'' [], ex_alarm ''b'' ''10:00'' [1]]))) \<and>
   fired (snd (updateClock ex_env (ex_clock 9 15 3 2)
     (fg_init [ex_alarm ''a'' ''09:15'' [], ex_alarm ''b'' ''10:00'' [1]])))
     = [ex_alarm ''a'' ''09:15'' []] \<and>
   alarms (fst (updateClock ex_env (ex_clock 9 15 3 2)
     (fg_init [ex_alarm ''a'' ''09:15'' [], ex_alarm ''b'' ''10:00'' [1]])))
     = [(ex_alarm ''a'' ''09:15'' [])\<lparr>enabled := False\<rparr>, ex_alarm ''b'' ''10:00'' [1]] \<and>
   storage (fst (updateClock ex_env (ex_clock 9 15 3 2)
     (fg_init [ex_alarm ''a'' ''09:15'' [], ex_alarm ''b'' ''10:00'' [1]])))
     = Some [(ex_alarm ''a'' ''09:15'' [])\<lparr>enabled := False\<rparr>, ex_alarm ''b'' ''10:00'' [1]] \<and>
   snd (updateClock ex_env (ex_clock 9 15 3 2)
     (fg_init [ex_alarm ''a'' ''09:15'' [], ex_alarm ''b'' ''10:00'' [1]]))
     = [FireAlarm (ex_alarm ''a'' ''09:15'' []),
        PostMessage (SYNC_ALARMS [slim ((ex_alarm ''a'' ''09:15'' [])\<lparr>enabled := False\<rparr>),
          slim (ex_alarm ''b'' ''10:00'' [1])]),
        RenderAlarms] \<and>
   never_enables ''a'' ex_env
     [Dismiss, ToggleAlarm 1 True, Tick (ex_clock 9 15 4 2), ToggleAlarm 0 False,
      Tick (ex_clock 9 15 3 3)]
     (fst (updateClock ex_env (ex_clock 9 15 3 2)
       (fg_init [ex_alarm ''a'' ''09:15'' [], ex_alarm ''b'' ''10:00'' [1]]))) \<and>
   filter (\<lambda>b. alarm_id b = ''a'') (tickFired (fg_trace ex_env
        [Dismiss, ToggleAlarm 1 True, Tick (ex_clock 9 15 4 2), ToggleAlarm 0 False,
         Tick (ex_clock 9 15 3 3)]
        (fst (updateClock ex_env (ex_clock 9 15 3 2)
          (fg_init [ex_alarm ''a'' ''09:15'' [], ex_alarm ''b'' ''10:00'' [1]])))))
     = []"
proof -
  let ?a = "ex_alarm ''a'' ''09:15'' []" and ?b = "ex_alarm ''b'' ''10:00'' [1]"
  let ?s = "fg_init [ex_alarm ''a'' ''09:15'' [], ex_alarm ''b'' ''10:00'' [1]]"
  let ?evs = "[Dismiss, ToggleAlarm 1 True, Tick (ex_clock 9 15 4 2), ToggleAlarm 0 False,
      Tick (ex_clock 9 15 3 3)]"
  let ?s' = "fst (updateClock ex_env (ex_clock 9 15 3 2) ?s)"
  have m: "minuteOf (ex_clock 9 15 3 2) = ''09:15''"
    by (simp add: minuteOf_def ex_clock_def pad_def padStart_def String_nat.simps digit_def)
  have h1: "seconds (ex_clock 9 15 3 2) \<le> 4" by (simp add: ex_clock_def)
  have h2: "currentRinging ?s = None" by (simp add: fg_init_def)
  have h3: "find (spec_due (minuteOf (ex_clock 9 15 3 2)) (day (ex_clock 9 15 3 2))
     (firedKeys ?s)) (alarms ?s) = Some ?a"
    unfolding m by (simp add: spec_due_def fg_init_def ex_alarm_def)
  have h4: "\<not> hasDays ?a" by (simp add: hasDays_def ex_alarm_def)
  have h5: "distinct (map alarm_id (alarms ?s))" by (simp add: fg_init_def ex_alarm_def)
  have i: "alarm_id ?a = ''a''" by (simp add: ex_alarm_def)
  have ok: "\<And>xs. setItemOk ex_env xs" "swController ex_env" by (simp_all add: ex_env_def)
  have l: "alarms ?s = [?a, ?b]" by (simp add: fg_init_def)
  have ab: "?b \<noteq> ?a" by (simp add: ex_alarm_def)
  note t = one_shot_disabled_after_fire [OF h1 h2 h3 h4 h5, of ex_env ?evs]
  from t obtain j where j: "j < length (alarms ?s)" "alarms ?s ! j = ?a"
    "alarms ?s' = (alarms ?s)[j := ?a\<lparr>enabled := False\<rparr>]" by blast
  have "j = 0"
  proof (rule ccontr)
    assume "j \<noteq> 0"
    then have "j = 1" using j(1) unfolding l by simp
    then show False using j(2) ab unfolding l by simp
  qed
  then have a: "alarms ?s' = [?a\<lparr>enabled := False\<rparr>, ?b]" using j(3) unfolding l by simp
  have st: "storage ?s' = Some [?a\<lparr>enabled := False\<rparr>, ?b]"
    using t ok unfolding a by simp
  have fx: "snd (updateClock ex_env (ex_clock 9 15 3 2) ?s)
      = [FireAlarm ?a, PostMessage (SYNC_ALARMS [slim (?a\<lparr>enabled := False\<rparr>), slim ?b]),
         RenderAlarms]"
    using t ok unfolding a by simp
  have d: "alarms (dismissAlarm ?s') = [?a\<lparr>enabled := False\<rparr>, ?b]"
    unfolding dismissAlarm_frame by (rule a)
  have e1: "\<not> enables ''a'' (dismissAlarm ?s') (ToggleAlarm 1 True)"
    unfolding enables_def d by (simp add: ex_alarm_def)
  have h6: "never_enables ''a'' ex_env ?evs ?s'"
    using e1 by (simp add: enables_def)
  have f: "filter (\<lambda>b. alarm_id b = ''a'') (tickFired (fg_trace ex_env ?evs ?s')) = []"
    using t h6 unfolding i filter_empty_conv by blast
  show ?thesis using h1 h2 h3 h4 h5 a st fx h6 f t by blast
qed

text \<open>
  C6. The slim projection of an alarm keeps its id, time, days, enabled flag, name and
  category as they are and has no inline audio payload (\<open>audioDataUrl\<close>); the key of
  the stored blob, the audio's display name and the repeat flag are carried along
  unchanged. When a worker controls the page, the message sent is the list of the slim
  projections, in the order of the list.
\<close>

theorem slim_projection:
  "alarm_id (slim a) = alarm_id a \<and> time (slim a) = time a \<and> days (slim a) = days a \<and>
   enabled (slim a) = enabled a \<and> name (slim a) = name a \<and> category (slim a) = category a \<and>
   audioDataUrl (slim a) = None \<and>
   audioKey (slim a) = audioKey a \<and> audioName (slim a) = audioName a \<and>
   repeat (slim a) = repeat a \<and>
   syncAlarmsToSW e s =
     (if swController e then [PostMessage (SYNC_ALARMS (map slim (alarms s)))] else [])"
  unfolding slim_def syncAlarmsToSW_def by simp

text \<open>
  C8. While an alarm is ringing, a tick of the page fires nothing, records no key (the
  keys after the tick are those the rollover leaves), and changes neither the alarms nor
  the ringing reference. Dismissal hides the overlay, stops the audio element and the
  beep, and resets the ringing reference. An event that clears a set ringing reference,
  or that hides a visible overlay, is a dismissal: the state after it is the one
  \<^verbatim>\<open>dismissAlarm\<close> gives.
\<close>

theorem ringing_gate:
  "(currentRinging s \<noteq> None \<longrightarrow>
      snd (updateClock e now s) = [] \<and>
      firedKeys (fst (updateClock e now s)) = firedKeys (rollover (minuteOf now) s) \<and>
      set (firedKeys (fst (updateClock e now s))) \<subseteq> set (firedKeys s) \<and>
      alarms (fst (updateClock e now s)) = alarms s \<and>
      currentRinging (fst (updateClock e now s)) = currentRinging s) \<and>
   overlayHidden (dismissAlarm s) \<and> sounding (dismissAlarm s) = Silence \<and>
   activeAudioEl (dismissAlarm s) = None \<and> \<not> beepInterval (dismissAlarm s) \<and>
   currentRinging (dismissAlarm s) = None \<and>
   (currentRinging s \<noteq> None \<and> currentRinging (fst (fg_step e ev s)) = None \<longrightarrow>
      dismisses ev \<and> fst (fg_step e ev s) = dismissAlarm s) \<and>
   (\<not> overlayHidden s \<and> overlayHidden (fst (fg_step e ev s)) \<longrightarrow>
      fst (fg_step e ev s) = dismissAlarm s) \<and>
   (dismisses ev \<and> currentRinging s \<noteq> None \<longrightarrow> fst (fg_step e ev s) = dismissAlarm s)"
proof (intro conjI impI)
  assume r: "currentRinging s \<noteq> None"
  have u: "updateClock e now s = (rollover (minuteOf now) s, [])"
    using r by (rule updateClock_ringing)
  show "snd (updateClock e now s) = []" unfolding u by simp
  show "firedKeys (fst (updateClock e now s)) = firedKeys (rollover (minuteOf now) s)"
    unfolding u by simp
  show "set (firedKeys (fst (updateClock e now s))) \<subseteq> set (firedKeys s)"
    unfolding u by (auto simp: rollover_def purge_def)
  show "alarms (fst (updateClock e now s)) = alarms s" unfolding u by (simp add: rollover_frame)
  show "currentRinging (fst (updateClock e now s)) = currentRinging s"
    unfolding u by (simp add: rollover_frame)
next
  show "overlayHidden (dismissAlarm s)" "sounding (dismissAlarm s) = Silence"
    "activeAudioEl (dismissAlarm s) = None" "\<not> beepInterval (dismissAlarm s)"
    "currentRinging (dismissAlarm s) = None"
    by (simp_all add: dismissAlarm_effect)
next
  assume "currentRinging s \<noteq> None \<and> currentRinging (fst (fg_step e ev s)) = None"
  then show "dismisses ev" "fst (fg_step e ev s) = dismissAlarm s"
    using step_clears_ringing [of s e ev] by simp_all
next
  assume "\<not> overlayHidden s \<and> overlayHidden (fst (fg_step e ev s))"
  then show "fst (fg_step e ev s) = dismissAlarm s" using step_hides_overlay by blast
next
  assume "dismisses ev \<and> currentRinging s \<noteq> None"
  then show "fst (fg_step e ev s) = dismissAlarm s"
    unfolding dismisses_def by (auto simp: onSwMessage_def Let_def)
qed

theorem ringing_gate_witness:
  "currentRinging ex_ringing \<noteq> None \<and>
   snd (updateClock ex_env (ex_clock 7 0 1 2) ex_ringing) = [] \<and>
   firedKeys (fst (updateClock ex_env (ex_clock 7 0 1 2) ex_ringing))
     = firedKeys (rollover (minuteOf (ex_clock 7 0 1 2)) ex_ringing) \<and>
   currentRinging (fst (fg_step ex_env Dismiss ex_ringing)) = None \<and>
   dismisses Dismiss \<and>
   \<not> overlayHidden ex_ringing \<and> overlayHidden (fst (fg_step ex_env Dismiss ex_ringing)) \<and>
   fst (fg_step ex_env Dismiss ex_ringing) = dismissAlarm ex_ringing"
proof -
  have r: "currentRinging ex_ringing \<noteq> None" "\<not> overlayHidden ex_ringing"
    unfolding ex_ringing_def by (simp_all add: fireAlarm_ringing)
  have d: "currentRinging (fst (fg_step ex_env Dismiss ex_ringing)) = None"
    "overlayHidden (fst (fg_step ex_env Dismiss ex_ringing))" "dismisses Dismiss"
    by (simp_all add: dismissAlarm_effect dismisses_def)
  show ?thesis
    using r d ringing_gate [of ex_ringing ex_env "ex_clock 7 0 1 2" Dismiss] by blast
qed

text \<open>
  C7. Alarms have at most one audio source, and every event of the page keeps it so. In
  a supported environment the ringing sequence of such an alarm is the cascade of the
  specification: the inline data URL if present, else the blob looked up by
  \<open>audioKey\<close>, else the beep, where a playback that fails, a lookup that fails and a
  missing blob go on to the next stage and end at the beep, which starts. So a fire
  never ends silent.
\<close>

theorem ringing_sequence_cascade:
  "supported e \<Longrightarrow> list_all oneSource (alarms s) \<Longrightarrow> oneSource a \<Longrightarrow>
     sounding (fireAlarm e a s) = spec_resolve e (fullAlarm a s) \<and>
     sounding (fireAlarm e a s) \<noteq> Silence \<and>
     oneSource (fullAlarm a s) \<and>
     list_all oneSource (alarms (fst (fg_step e ev s))) \<and>
     list_all oneSource (alarms (fg_exec e evs s))"
proof -
  assume s: "supported e" and l: "list_all oneSource (alarms s)" and a: "oneSource a"
  have f: "oneSource (fullAlarm a s)" using l a by (rule oneSource_fullAlarm)
  show ?thesis
    using sounding_cascade [OF s f] sounding_not_silent [OF s, of a s] f
      fg_step_oneSource [OF l, of e ev] fg_exec_oneSource [OF l, of e evs]
    by blast
qed

theorem ringing_sequence_cascade_witness:
  "supported ex_env_rejecting \<and>
   list_all oneSource (alarms (fg_init [ex_inline])) \<and>
   oneSource ex_inline \<and>
   sounding (fireAlarm ex_env_rejecting ex_inline (fg_init [ex_inline])) = Beep \<and>
   spec_resolve ex_env_rejecting (fullAlarm ex_inline (fg_init [ex_inline])) = Beep"
proof -
  have o: "oneSource ex_inline" by (simp add: oneSource_def ex_inline_def ex_alarm_def)
  have l: "list_all oneSource (alarms (fg_init [ex_inline]))" using o by (simp add: fg_init_def)
  have f: "fullAlarm ex_inline (fg_init [ex_inline]) = ex_inline"
    by (simp add: fullAlarm_def fg_init_def)
  have r: "spec_resolve ex_env_rejecting ex_inline = Beep"
    by (simp add: spec_resolve_def spec_blob_stage_def ex_inline_def ex_alarm_def starts_def
        ex_env_rejecting_def)
  show ?thesis
    using ringing_sequence_cascade [OF ex_env_rejecting_supported l o] o l r
      ex_env_rejecting_supported
    unfolding f by simp
qed

text \<open>
  C9. \<^verbatim>\<open>loadAlarms\<close> always returns a list and never throws. It returns the empty list
  when the stored value is absent or empty, when reading it throws, when the text does
  not parse, and when it parses to something that is not an array; a parsed array is
  returned as it is.
\<close>

theorem loadAlarms_tolerant:
  "(\<exists>xs. loadAlarms getItem JSON_parse = Inr xs) \<and>
   loadAlarms (Inr None) JSON_parse = Inr [] \<and>
   loadAlarms (Inr (Some [])) JSON_parse = Inr [] \<and>
   loadAlarms (Inl err) JSON_parse = Inr [] \<and>
   (JSON_parse raw = Inl err' \<longrightarrow> loadAlarms (Inr (Some raw)) JSON_parse = Inr []) \<and>
   (JSON_parse raw' = Inr v \<and> (\<forall>xs. v \<noteq> JArray xs) \<longrightarrow>
      loadAlarms (Inr (Some raw')) JSON_parse = Inr []) \<and>
   (raw'' \<noteq> [] \<and> JSON_parse raw'' = Inr (JArray ys) \<longrightarrow>
      loadAlarms (Inr (Some raw'')) JSON_parse = Inr ys)"
proof (intro conjI impI)
  show "\<exists>xs. loadAlarms getItem JSON_parse = Inr xs" by (rule loadAlarms_total)
  show "loadAlarms (Inr None) JSON_parse = Inr []"
    "loadAlarms (Inr (Some [])) JSON_parse = Inr []"
    "loadAlarms (Inl err) JSON_parse = Inr []"
    by (simp_all add: loadAlarms_def loadAlarms_try_def)
next
  assume "JSON_parse raw = Inl err'"
  then show "loadAlarms (Inr (Some raw)) JSON_parse = Inr []"
    by (simp add: loadAlarms_def loadAlarms_try_def)
next
  assume "JSON_parse raw' = Inr v \<and> (\<forall>xs. v \<noteq> JArray xs)"
  then show "loadAlarms (Inr (Some raw')) JSON_parse = Inr []"
    by (cases v) (simp_all add: loadAlarms_def loadAlarms_try_def)
next
  assume "raw'' \<noteq> [] \<and> JSON_parse raw'' = Inr (JArray ys)"
  then show "loadAlarms (Inr (Some raw'')) JSON_parse = Inr ys"
    by (simp add: loadAlarms_def loadAlarms_try_def)
qed

theorem loadAlarms_tolerant_witness:
  "ex_parse ''alarm'' = Inl SyntaxError \<and>
   loadAlarms (Inr (Some ''alarm'')) ex_parse = Inr [] \<and>
   ex_parse ''{}'' = Inr (JObject []) \<and>
   loadAlarms (Inr (Some ''{}'')) ex_parse = Inr [] \<and>
   ex_parse ''[]'' = Inr (JArray []) \<and>
   loadAlarms (Inr (Some ''[]'')) ex_parse = Inr []"
proof -
  have p: "ex_parse ''alarm'' = Inl SyntaxError" "ex_parse ''{}'' = Inr (JObject [])"
    "ex_parse ''[]'' = Inr (JArray [])"
    by (simp_all add: ex_parse_def)
  have n: "\<forall>xs. JObject [] \<noteq> JArray xs" by simp
  show ?thesis
    using p n loadAlarms_tolerant [of "Inr None" ex_parse SecurityError "''alarm''" SyntaxError
        "''{}''" "JObject []" "''[]''" "[]"]
    by simp
qed

text \<open>
  C10. \<^verbatim>\<open>fireAlarm\<close> leaves the alarm list as it is, and so do the message handler,
  a dismissal and the end of the audio. When an \<^verbatim>\<open>ALARM_FIRED\<close> message arrives while
  nothing rings, the alarm is fired and every enabled flag stays what it was: a one-shot
  alarm fired this way stays enabled.
\<close>

theorem fire_keeps_alarms:
  "alarms (fireAlarm e a s) = alarms s \<and>
   alarms (fst (onSwMessage e m s)) = alarms s \<and>
   alarms (fst (fg_step e (SwMessage m) s)) = alarms s \<and>
   alarms (fst (fg_step e Dismiss s)) = alarms s \<and>
   alarms (fst (fg_step e AudioEnded s)) = alarms s \<and>
   (currentRinging s = None \<longrightarrow>
      snd (onSwMessage e (ALARM_FIRED a) s) = [FireAlarm a] \<and>
      currentRinging (fst (onSwMessage e (ALARM_FIRED a) s)) = Some a \<and>
      map enabled (alarms (fst (onSwMessage e (ALARM_FIRED a) s))) = map enabled (alarms s))"
  by (simp add: fireAlarm_frame onSwMessage_frame dismissAlarm_frame)
     (simp add: onSwMessage_def fireAlarm_ringing)

theorem fire_keeps_alarms_witness:
  "currentRinging (fg_init [ex_alarm ''a'' ''07:00'' []]) = None \<and>
   \<not> hasDays (ex_alarm ''a'' ''07:00'' []) \<and>
   snd (onSwMessage ex_env (ALARM_FIRED (slim (ex_alarm ''a'' ''07:00'' [])))
     (fg_init [ex_alarm ''a'' ''07:00'' []])) = [FireAlarm (slim (ex_alarm ''a'' ''07:00'' []))] \<and>
   map enabled (alarms (fst (onSwMessage ex_env (ALARM_FIRED (slim (ex_alarm ''a'' ''07:00'' [])))
     (fg_init [ex_alarm ''a'' ''07:00'' []])))) = [True]"
proof -
  have h: "currentRinging (fg_init [ex_alarm ''a'' ''07:00'' []]) = None"
    by (simp add: fg_init_def)
  have d: "\<not> hasDays (ex_alarm ''a'' ''07:00'' [])" by (simp add: hasDays_def ex_alarm_def)
  have e: "map enabled (alarms (fg_init [ex_alarm ''a'' ''07:00'' []])) = [True]"
    by (simp add: fg_init_def ex_alarm_def)
  show ?thesis
    using h d e fire_keeps_alarms [of ex_env "slim (ex_alarm ''a'' ''07:00'' [])"
        "fg_init [ex_alarm ''a'' ''07:00'' []]" OTHER_MESSAGE]
    by simp
qed

end
